theory Spec2Isabelle
  imports Main
begin

section \<open>Machine integers and exceptions\<close>

text \<open>
  \<^verbatim>\<open>size_t\<close> is the unsigned 64-bit integer of the usual LP64 platforms.  Its values are
  modelled as natural numbers below \<open>2 ^ 64\<close>; every operation of the source that can leave
  that range has its wrap-around written out with the functions below.  A shift by 64 or
  more bits and a division by zero are undefined behaviour in C++; the model returns the
  error \<open>undefined_behaviour\<close> where the source reaches one.
\<close>

type_synonym size_t = nat

definition SIZE_T_BITS :: nat where
  \<comment> \<open>\<^verbatim>\<open>CHAR_BIT * sizeof(size_t)\<close>\<close>
  "SIZE_T_BITS = 64"

definition size_t_add :: "size_t \<Rightarrow> size_t \<Rightarrow> size_t" where
  "size_t_add a b = (a + b) mod 2 ^ 64"

definition size_t_sub :: "size_t \<Rightarrow> size_t \<Rightarrow> size_t" where
  "size_t_sub a b = (a + 2 ^ 64 - b) mod 2 ^ 64"

definition size_t_mul :: "size_t \<Rightarrow> size_t \<Rightarrow> size_t" where
  "size_t_mul a b = (a * b) mod 2 ^ 64"

definition size_t_shl :: "size_t \<Rightarrow> nat \<Rightarrow> size_t" where
  \<comment> \<open>\<^verbatim>\<open>a << n\<close> for \<open>n < 64\<close>: the bits shifted out are lost\<close>
  "size_t_shl a n = push_bit n a mod 2 ^ 64"

text \<open>
  The exceptions of the source: \<^verbatim>\<open>std::out_of_range\<close> and \<^verbatim>\<open>std::logic_error\<close> with their
  messages.  \<open>undefined_behaviour\<close> marks the places where the source has no defined
  behaviour (out-of-range vector subscript, division by zero, oversized shift).
\<close>

datatype error =
    out_of_range string
  | logic_error string
  | undefined_behaviour string

section \<open>Symbol ranges and piecewise ranges\<close>

text \<open>
  \<^verbatim>\<open>symbol_range<CharT, Lower, Upper>\<close> with \<^verbatim>\<open>static_assert(Lower <= Upper)\<close>; symbols are the
  integer values of the character type.  \<^verbatim>\<open>piecewise_range<RH, RT...>\<close> is a non-empty
  sequence of ranges.
\<close>

datatype symbol_range = symbol_range (lower: int) (upper: int)

definition length_sr :: "symbol_range \<Rightarrow> size_t" where
  \<comment> \<open>\<^verbatim>\<open>length = Upper - Lower + 1ULL\<close>\<close>
  "length_sr r = nat (upper r - lower r + 1)"

datatype piecewise_range =
    Single symbol_range
  | Pieces symbol_range piecewise_range

fun length_pr :: "piecewise_range \<Rightarrow> size_t" where
  "length_pr (Single rh) = length_sr rh"
| "length_pr (Pieces rh rt) = length_sr rh + length_pr rt"

fun symbol_by_index :: "piecewise_range \<Rightarrow> size_t \<Rightarrow> error + int" where
  "symbol_by_index (Single rh) idx =
     (if idx < length_sr rh then Inr (lower rh + int idx)
      else Inl (out_of_range ''symbol_by_index: out of range''))"
| "symbol_by_index (Pieces rh rt) idx =
     (if idx < length_sr rh then Inr (lower rh + int idx)
      else symbol_by_index rt (idx - length_sr rh))"

fun index_of_symbol :: "piecewise_range \<Rightarrow> int \<Rightarrow> error + size_t" where
  "index_of_symbol (Single rh) c =
     (if lower rh \<le> c \<and> c \<le> upper rh then Inr (nat (c - lower rh))
      else Inl (out_of_range ''index_of_symbol: out of range''))"
| "index_of_symbol (Pieces rh rt) c =
     (if lower rh \<le> c \<and> c \<le> upper rh then Inr (nat (c - lower rh))
      else (case index_of_symbol rt c of
              Inl e \<Rightarrow> Inl e
            | Inr i \<Rightarrow> Inr (length_sr rh + i)))"

section \<open>Bit widths\<close>

text \<open>
  \<^verbatim>\<open>log2_floor(x) = x == 1 ? 0 : 1 + log2_floor(x/2)\<close> has the precondition \<open>x > 0\<close>: at
  \<open>x = 0\<close> the recursion never reaches 1.  \<open>None\<close> is that non-returning call.
\<close>

partial_function (option) log2_floor :: "size_t \<Rightarrow> size_t option" where
  "log2_floor x =
     (if x = 1 then Some 0
      else Option.bind (log2_floor (x div 2)) (\<lambda>r. Some (1 + r)))"

declare log2_floor.simps [code]

definition log2_ceil :: "size_t \<Rightarrow> size_t option" where
  "log2_ceil x =
     (if x \<le> 1 then Some 1
      else Option.bind (log2_floor (x - 1)) (\<lambda>r. Some (r + 1)))"

section \<open>The codec\<close>

text \<open>
  \<^verbatim>\<open>lzw_codec<IODict, PackDict>\<close>: the functions below take the two dictionaries \<open>io\<close> and
  \<open>pk\<close> as parameters.  \<open>bit_capacity\<close> is the class constant
  \<^verbatim>\<open>log2_floor(PackDict::length)\<close>.
\<close>

definition bit_capacity :: "piecewise_range \<Rightarrow> size_t option" where
  "bit_capacity pk = log2_floor (length_pr pk)"

fun ranges_ok :: "piecewise_range \<Rightarrow> bool" where
  \<comment> \<open>\<^verbatim>\<open>static_assert(Lower <= Upper)\<close> of every piece\<close>
  "ranges_ok (Single rh) = (lower rh \<le> upper rh)"
| "ranges_ok (Pieces rh rt) = (lower rh \<le> upper rh \<and> ranges_ok rt)"

definition lzw_codec :: "piecewise_range \<Rightarrow> piecewise_range \<Rightarrow> bool" where
  \<comment> \<open>the static assertions under which the class template instantiates\<close>
  "lzw_codec io pk =
     (ranges_ok io \<and> ranges_ok pk \<and>
      (case bit_capacity pk of
         None \<Rightarrow> False
       | Some cap \<Rightarrow> cap \<le> SIZE_T_BITS) \<and>
      (case log2_ceil (length_pr io) of
         None \<Rightarrow> False
       | Some l \<Rightarrow> length_pr pk \<ge> l))"

subsection \<open>Base dictionaries\<close>

text \<open>
  \<^verbatim>\<open>std::map<phrase, size_t>\<close> is an association list with unique keys: \<open>emplace\<close> inserts
  only when the key is absent and reports whether it did, \<open>at_dict\<close> throws
  \<^verbatim>\<open>std::out_of_range\<close> on a missing key, \<^verbatim>\<open>size()\<close> is the length of the list.
\<close>

type_synonym phrase_t = "int list"
type_synonym encode_dict_t = "(phrase_t \<times> size_t) list"
type_synonym decode_dict_t = "phrase_t list"
type_synonym codes_vec = "size_t list"

definition emplace :: "encode_dict_t \<Rightarrow> phrase_t \<Rightarrow> size_t \<Rightarrow> encode_dict_t \<times> bool" where
  "emplace dict k v =
     (case map_of dict k of
        None \<Rightarrow> (dict @ [(k, v)], True)
      | Some _ \<Rightarrow> (dict, False))"

definition at_dict :: "encode_dict_t \<Rightarrow> phrase_t \<Rightarrow> error + size_t" where
  "at_dict dict k =
     (case map_of dict k of
        None \<Rightarrow> Inl (out_of_range ''map::at'')
      | Some v \<Rightarrow> Inr v)"

fun encode_dict_fill :: "piecewise_range \<Rightarrow> size_t list \<Rightarrow> encode_dict_t \<Rightarrow> error + encode_dict_t" where
  "encode_dict_fill io [] dict = Inr dict"
| "encode_dict_fill io (code # rest) dict =
     (case symbol_by_index io code of
        Inl e \<Rightarrow> Inl e
      | Inr s \<Rightarrow> encode_dict_fill io rest (fst (emplace dict [s] code)))"

definition encode_dict :: "piecewise_range \<Rightarrow> error + encode_dict_t" where
  "encode_dict io = encode_dict_fill io [0..<length_pr io] []"

fun decode_dict_fill :: "piecewise_range \<Rightarrow> size_t list \<Rightarrow> decode_dict_t \<Rightarrow> error + decode_dict_t" where
  "decode_dict_fill io [] dict = Inr dict"
| "decode_dict_fill io (code # rest) dict =
     (case symbol_by_index io code of
        Inl e \<Rightarrow> Inl e
      | Inr s \<Rightarrow> decode_dict_fill io rest (dict @ [[s]]))"

definition decode_dict :: "piecewise_range \<Rightarrow> error + decode_dict_t" where
  "decode_dict io = decode_dict_fill io [0..<length_pr io] []"

subsection \<open>Bit packing\<close>

text \<open>
  The output iterator \<^verbatim>\<open>d_first\<close> is the list \<open>out\<close> of the symbols written through it so
  far.  A function that writes returns \<open>Inr\<close> with the final list, or \<open>Inl (e, out)\<close> when
  the exception \<open>e\<close> leaves it after \<open>out\<close> has been written.  The result is wrapped in
  \<open>option\<close>: \<open>None\<close> is a loop that never ends.
\<close>

type_synonym 'a writer = "(error \<times> int list + 'a) option"

text \<open>The cycle over the bits of one code (lines 196--217).\<close>

partial_function (option) pack_code ::
  "piecewise_range \<Rightarrow> size_t \<Rightarrow> size_t \<Rightarrow> size_t \<Rightarrow> size_t \<Rightarrow> size_t \<Rightarrow> size_t \<Rightarrow> int list
    \<Rightarrow> (size_t \<times> size_t \<times> int list) writer"
where
  "pack_code pk cap bit_depth code code_done symbol_done symbol_acc out =
     (if code_done < bit_depth then
        (let symbol_left = size_t_sub cap symbol_done;
             code_left = size_t_sub bit_depth code_done;
             bits_to_write = min symbol_left code_left
         in if SIZE_T_BITS \<le> code_done \<or> SIZE_T_BITS \<le> bits_to_write
                 \<or> SIZE_T_BITS \<le> symbol_done
            then Some (Inl (undefined_behaviour ''shift count'', out))
            else
              (let mask = drop_bit code_done code;
                   mask' = and mask (size_t_sub (size_t_shl 1 bits_to_write) 1);
                   mask'' = size_t_shl mask' symbol_done;
                   symbol_acc' = or symbol_acc mask'';
                   code_done' = size_t_add code_done bits_to_write;
                   symbol_done' = size_t_add symbol_done bits_to_write
               in if symbol_done' = cap then
                    (case symbol_by_index pk symbol_acc' of
                       Inl e \<Rightarrow> Some (Inl (e, out))
                     | Inr s \<Rightarrow>
                         pack_code pk cap bit_depth code code_done' 0 0 (out @ [s]))
                  else pack_code pk cap bit_depth code code_done' symbol_done' symbol_acc' out))
      else Some (Inr (symbol_done, symbol_acc, out)))"

declare pack_code.simps [code]

text \<open>The cycle over the codes (lines 193--218).\<close>

fun pack_codes ::
  "piecewise_range \<Rightarrow> size_t \<Rightarrow> size_t \<Rightarrow> codes_vec \<Rightarrow> size_t \<Rightarrow> size_t \<Rightarrow> int list
    \<Rightarrow> (size_t \<times> size_t \<times> int list) writer"
where
  "pack_codes pk cap bit_depth [] symbol_done symbol_acc out =
     Some (Inr (symbol_done, symbol_acc, out))"
| "pack_codes pk cap bit_depth (code # src) symbol_done symbol_acc out =
     (case pack_code pk cap bit_depth code 0 symbol_done symbol_acc out of
        None \<Rightarrow> None
      | Some (Inl e) \<Rightarrow> Some (Inl e)
      | Some (Inr (symbol_done', symbol_acc', out')) \<Rightarrow>
          pack_codes pk cap bit_depth src symbol_done' symbol_acc' out')"

definition pack_dead_bits :: "size_t \<Rightarrow> size_t \<Rightarrow> size_t \<Rightarrow> size_t" where
  \<comment> \<open>lines 176--178, for \<open>n = src.size()\<close> and \<open>cap \<noteq> 0\<close>\<close>
  "pack_dead_bits cap bit_depth n =
     (let bits_needed = size_t_mul bit_depth n;
          output_symbols = size_t_add (size_t_sub bits_needed 1 div cap) 1
      in size_t_sub (size_t_mul output_symbols cap) bits_needed)"

definition pack_bits :: "piecewise_range \<Rightarrow> codes_vec \<Rightarrow> size_t \<Rightarrow> (int list) writer" where
  "pack_bits pk src bit_depth =
     (case bit_capacity pk of
        None \<Rightarrow> None
      | Some cap \<Rightarrow>
          if cap = 0 then Some (Inl (undefined_behaviour ''division by zero'', []))
          else
            (let dead_bits = pack_dead_bits cap bit_depth (length src)
             in case symbol_by_index pk bit_depth of
                  Inl e \<Rightarrow> Some (Inl (e, []))
                | Inr h1 \<Rightarrow>
                    (case symbol_by_index pk dead_bits of
                       Inl e \<Rightarrow> Some (Inl (e, [h1]))
                     | Inr h2 \<Rightarrow>
                         (case pack_codes pk cap bit_depth src 0 0 [h1, h2] of
                            None \<Rightarrow> None
                          | Some (Inl e) \<Rightarrow> Some (Inl e)
                          | Some (Inr (symbol_done, symbol_acc, out)) \<Rightarrow>
                              if symbol_done \<noteq> 0 then
                                (case symbol_by_index pk symbol_acc of
                                   Inl e \<Rightarrow> Some (Inl (e, out))
                                 | Inr s \<Rightarrow> Some (Inr (out @ [s])))
                              else Some (Inr out)))))"

subsection \<open>Bit unpacking\<close>

text \<open>
  The cycle over the bits of one code (lines 257--286).  \<open>rest\<close> is the input range
  \<^verbatim>\<open>[first, last)\<close>; the result carries the flag \<open>done\<close> set by the two \<^verbatim>\<open>break\<close>s.
\<close>

partial_function (option) unpack_code ::
  "piecewise_range \<Rightarrow> size_t \<Rightarrow> size_t \<Rightarrow> size_t \<Rightarrow> int list \<Rightarrow> size_t \<Rightarrow> size_t \<Rightarrow> size_t \<Rightarrow> size_t
    \<Rightarrow> (error + bool \<times> int list \<times> size_t \<times> size_t \<times> size_t \<times> size_t) option"
where
  "unpack_code pk cap bit_depth dead_bits rest chunk symbol_done code_acc code_done =
     (if code_done < bit_depth then
        (let symbol_left = size_t_sub cap symbol_done;
             code_left = size_t_sub bit_depth code_done
         in if symbol_left = dead_bits \<and> code_done = 0 \<and> rest = [] then
              Some (Inr (True, rest, chunk, symbol_done, code_acc, code_done))
            else
              (let bits_to_read = min symbol_left code_left
               in if SIZE_T_BITS \<le> symbol_done \<or> SIZE_T_BITS \<le> bits_to_read
                       \<or> SIZE_T_BITS \<le> code_done
                  then Some (Inl (undefined_behaviour ''shift count''))
                  else
                    (let data = drop_bit symbol_done chunk;
                         data' = and data (size_t_sub (size_t_shl 1 bits_to_read) 1);
                         data'' = size_t_shl data' code_done;
                         code_acc' = or code_acc data'';
                         code_done' = size_t_add code_done bits_to_read;
                         symbol_done' = size_t_add symbol_done bits_to_read
                     in if symbol_done' = cap then
                          (case rest of
                             [] \<Rightarrow> Some (Inr (True, rest, chunk, symbol_done', code_acc', code_done'))
                           | s # rest' \<Rightarrow>
                               (case index_of_symbol pk s of
                                  Inl e \<Rightarrow> Some (Inl e)
                                | Inr chunk' \<Rightarrow>
                                    unpack_code pk cap bit_depth dead_bits rest' chunk' 0
                                      code_acc' code_done'))
                        else unpack_code pk cap bit_depth dead_bits rest chunk symbol_done'
                               code_acc' code_done')))
      else Some (Inr (False, rest, chunk, symbol_done, code_acc, code_done)))"

declare unpack_code.simps [code]

text \<open>The cycle over the codes (lines 252--292).\<close>

partial_function (option) unpack_codes ::
  "piecewise_range \<Rightarrow> size_t \<Rightarrow> size_t \<Rightarrow> size_t \<Rightarrow> int list \<Rightarrow> size_t \<Rightarrow> size_t \<Rightarrow> codes_vec
    \<Rightarrow> (error + codes_vec) option"
where
  "unpack_codes pk cap bit_depth dead_bits rest chunk symbol_done dst =
     (case unpack_code pk cap bit_depth dead_bits rest chunk symbol_done 0 0 of
        None \<Rightarrow> None
      | Some (Inl e) \<Rightarrow> Some (Inl e)
      | Some (Inr (done, rest', chunk', symbol_done', code_acc, code_done)) \<Rightarrow>
          (let dst' = (if code_done > 0 then dst @ [code_acc] else dst)
           in if done then Some (Inr dst')
              else unpack_codes pk cap bit_depth dead_bits rest' chunk' symbol_done' dst'))"

declare unpack_codes.simps [code]

text \<open>
  \<^verbatim>\<open>unpack_bits\<close> for a destination vector that is empty at the call, as in \<^verbatim>\<open>decode\<close>.
  \<^verbatim>\<open>dst.reserve(out_length + 1)\<close> is a capacity hint and changes no contents (allocation
  failure is outside the model); computing \<^verbatim>\<open>out_length\<close> divides by \<^verbatim>\<open>bit_depth\<close>.
\<close>

definition unpack_bits :: "piecewise_range \<Rightarrow> int list \<Rightarrow> (error + codes_vec) option" where
  "unpack_bits pk input =
     (case input of
        [] \<Rightarrow> Some (Inr [])
      | s1 # r1 \<Rightarrow>
          (case index_of_symbol pk s1 of
             Inl e \<Rightarrow> Some (Inl e)
           | Inr bit_depth \<Rightarrow>
               (case r1 of
                  [] \<Rightarrow> Some (Inl (logic_error ''lzw_codec: bad data 1''))
                | s2 # r2 \<Rightarrow>
                    (case index_of_symbol pk s2 of
                       Inl e \<Rightarrow> Some (Inl e)
                     | Inr dead_bits \<Rightarrow>
                         (case r2 of
                            [] \<Rightarrow> Some (Inl (logic_error ''lzw_codec: bad data 2''))
                          | s3 # r3 \<Rightarrow>
                              (case bit_capacity pk of
                                 None \<Rightarrow> None
                               | Some cap \<Rightarrow>
                                   if bit_depth = 0
                                   then Some (Inl (undefined_behaviour ''division by zero''))
                                   else
                                     (case index_of_symbol pk s3 of
                                        Inl e \<Rightarrow> Some (Inl e)
                                      | Inr chunk \<Rightarrow>
                                          unpack_codes pk cap bit_depth dead_bits r3 chunk 0 [])))))))"

subsection \<open>Encoding\<close>

definition emplace_code ::
  "encode_dict_t \<Rightarrow> phrase_t \<Rightarrow> size_t \<Rightarrow> codes_vec \<Rightarrow> error + size_t \<times> codes_vec" where
  \<comment> \<open>the lambda of lines 318--321: the new \<open>max_code\<close> and \<open>codes\<close>\<close>
  "emplace_code dict phrase max_code codes =
     (case at_dict dict phrase of
        Inl e \<Rightarrow> Inl e
      | Inr code \<Rightarrow> Inr (max max_code code, codes @ [code]))"

text \<open>The loop over the input after its first symbol (lines 323--339).\<close>

fun encode_loop ::
  "encode_dict_t \<Rightarrow> size_t \<Rightarrow> size_t \<Rightarrow> codes_vec \<Rightarrow> phrase_t \<Rightarrow> int list
    \<Rightarrow> error + encode_dict_t \<times> size_t \<times> size_t \<times> codes_vec \<times> phrase_t"
where
  "encode_loop dict next_code max_code codes phrase [] =
     Inr (dict, next_code, max_code, codes, phrase)"
| "encode_loop dict next_code max_code codes phrase (curr_symbol # rest) =
     (let tmp = phrase @ [curr_symbol];
          (dict', inserted) = emplace dict tmp next_code
      in if \<not> inserted then encode_loop dict' next_code max_code codes tmp rest
         else
           (case emplace_code dict' phrase max_code codes of
              Inl e \<Rightarrow> Inl e
            | Inr (max_code', codes') \<Rightarrow>
                encode_loop dict' (size_t_add next_code 1) max_code' codes' [curr_symbol] rest))"

text \<open>
  Lines 306--342 of \<^verbatim>\<open>encode\<close> for a non-empty input \<open>x # xs\<close>: the emitted codes and the
  final \<open>max_code\<close>.
\<close>

definition encode_codes :: "piecewise_range \<Rightarrow> int \<Rightarrow> int list \<Rightarrow> error + codes_vec \<times> size_t" where
  "encode_codes io x xs =
     (case encode_dict io of
        Inl e \<Rightarrow> Inl e
      | Inr dict \<Rightarrow>
          (let next_code = length dict;
               max_code = size_t_sub next_code 1
           in case encode_loop dict next_code max_code [] [x] xs of
                Inl e \<Rightarrow> Inl e
              | Inr (dict', next_code', max_code', codes, phrase) \<Rightarrow>
                  (case emplace_code dict' phrase max_code' codes of
                     Inl e \<Rightarrow> Inl e
                   | Inr (max_code'', codes') \<Rightarrow> Inr (codes', max_code''))))"

definition encode :: "piecewise_range \<Rightarrow> piecewise_range \<Rightarrow> int list \<Rightarrow> (int list) writer" where
  "encode io pk input =
     (case input of
        [] \<Rightarrow> Some (Inr [])
      | x # xs \<Rightarrow>
          (case encode_codes io x xs of
             Inl e \<Rightarrow> Some (Inl (e, []))
           | Inr (codes, max_code) \<Rightarrow>
               (case log2_ceil (size_t_add max_code 1) of
                  None \<Rightarrow> None
                | Some bit_depth \<Rightarrow>
                    if bit_depth > SIZE_T_BITS
                    then Some (Inl (logic_error ''lzw_codec: bit_depth > log2(size_t)'', []))
                    else if bit_depth \<ge> length_pr pk
                    then Some (Inl (logic_error ''lzw_codec: bit_depth > PackDict::length'', []))
                    else pack_bits pk codes bit_depth)))"

subsection \<open>Decoding\<close>

text \<open>
  The loop over the codes after the first (lines 379--395).  \<^verbatim>\<open>rdict[old]\<close>, \<^verbatim>\<open>entry[0]\<close>
  and \<^verbatim>\<open>tmp[0]\<close> are unchecked vector subscripts.
\<close>

fun decode_loop ::
  "decode_dict_t \<Rightarrow> size_t \<Rightarrow> codes_vec \<Rightarrow> int list \<Rightarrow> error \<times> int list + int list"
where
  "decode_loop rdict old [] out = Inr out"
| "decode_loop rdict old (code # codes) out =
     (if old \<ge> length rdict then Inl (undefined_behaviour ''vector subscript'', out)
      else
        (let tmp = rdict ! old
         in if code < length rdict then
              (case rdict ! code of
                 [] \<Rightarrow> Inl (undefined_behaviour ''vector subscript'', out)
               | e0 # es \<Rightarrow>
                   decode_loop (rdict @ [tmp @ [e0]]) code codes (out @ e0 # es))
            else
              (case tmp of
                 [] \<Rightarrow> Inl (undefined_behaviour ''vector subscript'', out)
               | t0 # ts \<Rightarrow>
                   decode_loop (rdict @ [tmp @ [t0]]) code codes (out @ tmp @ [t0]))))"

definition decode :: "piecewise_range \<Rightarrow> piecewise_range \<Rightarrow> int list \<Rightarrow> (int list) writer" where
  "decode io pk input =
     (case input of
        [] \<Rightarrow> Some (Inr [])
      | _ # _ \<Rightarrow>
          (case unpack_bits pk input of
             None \<Rightarrow> None
           | Some (Inl e) \<Rightarrow> Some (Inl (e, []))
           | Some (Inr codes) \<Rightarrow>
               (case decode_dict io of
                  Inl e \<Rightarrow> Some (Inl (e, []))
                | Inr rdict \<Rightarrow>
                    (case codes of
                       [] \<Rightarrow> Some (Inl (undefined_behaviour ''vector subscript'', []))
                     | code # codes' \<Rightarrow>
                         if code \<ge> length rdict
                         then Some (Inl (undefined_behaviour ''vector subscript'', []))
                         else Some (decode_loop rdict code codes' (rdict ! code))))))"

subsection \<open>Predefined dictionaries and the error kinds of the specification\<close>

definition BINARY_256_common :: piecewise_range where
  "BINARY_256_common = Single (symbol_range 0 255)"

definition ASCII_128_common :: piecewise_range where
  "ASCII_128_common = Single (symbol_range 0 127)"

definition UTF16_pack :: piecewise_range where
  "UTF16_pack = Pieces (symbol_range 0x0020 0xD7FF) (Single (symbol_range 0xE000 0xFFFF))"

definition URI_pack :: piecewise_range where
  \<comment> \<open>\<^verbatim>\<open>['0','9'], ['A','Z'], ['a','z']\<close>\<close>
  "URI_pack = Pieces (symbol_range 48 57) (Pieces (symbol_range 65 90) (Single (symbol_range 97 122)))"

definition MalformedStream :: "error \<Rightarrow> bool" where
  \<comment> \<open>the exceptions of \<^verbatim>\<open>decode\<close> for a stream that is too short or not over the pack alphabet\<close>
  "MalformedStream e =
     (e = logic_error ''lzw_codec: bad data 1'' \<or>
      e = logic_error ''lzw_codec: bad data 2'' \<or>
      e = out_of_range ''index_of_symbol: out of range'')"

definition CapacityExceeded :: "error \<Rightarrow> bool" where
  \<comment> \<open>the two exceptions at the end of \<^verbatim>\<open>encode\<close>\<close>
  "CapacityExceeded e =
     (e = logic_error ''lzw_codec: bit_depth > log2(size_t)'' \<or>
      e = logic_error ''lzw_codec: bit_depth > PackDict::length'')"

section \<open>Notions used in the statements and proofs\<close>

text \<open>
  The symbols of a dictionary in index order, and the disjointness of its pieces that the
  alphabets of the codecs satisfy.
\<close>

fun symbols :: "piecewise_range \<Rightarrow> int list" where
  "symbols (Single rh) = map (\<lambda>i. lower rh + int i) [0..<length_sr rh]"
| "symbols (Pieces rh rt) = map (\<lambda>i. lower rh + int i) [0..<length_sr rh] @ symbols rt"

definition in_range :: "symbol_range \<Rightarrow> int \<Rightarrow> bool" where
  "in_range r c = (lower r \<le> c \<and> c \<le> upper r)"

fun apart :: "symbol_range \<Rightarrow> piecewise_range \<Rightarrow> bool" where
  "apart rh (Single r) = (upper rh < lower r \<or> upper r < lower rh)"
| "apart rh (Pieces r rt) = ((upper rh < lower r \<or> upper r < lower rh) \<and> apart rh rt)"

fun disjoint_pr :: "piecewise_range \<Rightarrow> bool" where
  "disjoint_pr (Single rh) = True"
| "disjoint_pr (Pieces rh rt) = (apart rh rt \<and> disjoint_pr rt)"

text \<open>The encode dictionary that holds the phrases \<open>ps\<close> under the codes \<open>0, 1, 2, ...\<close>\<close>

definition enum :: "phrase_t list \<Rightarrow> encode_dict_t" where
  "enum ps = zip ps [0..<length ps]"

text \<open>
  What every result of the packing loops satisfies: an exception is none of the two
  of \<^verbatim>\<open>encode\<close>'s end, and a normal result extends the output written before.
\<close>

definition pack_fact :: "int list \<Rightarrow> (error \<times> int list + size_t \<times> size_t \<times> int list) \<Rightarrow> bool" where
  "pack_fact out r =
     (case r of
        Inl (e, w) \<Rightarrow> \<not> CapacityExceeded e
      | Inr (sd, acc, out') \<Rightarrow> take (length out) out' = out)"

section \<open>Bit widths: the rounding contract\<close>

lemma log2_floor_between:
  "2 ^ k \<le> x \<Longrightarrow> x < 2 ^ Suc k \<Longrightarrow> log2_floor x = Some k"
proof (induction k arbitrary: x)
  case 0
  then have "x = 1" by simp
  then show ?case by (subst log2_floor.simps) simp
next
  case (Suc k)
  from Suc.prems have "2 ^ k \<le> x div 2" "x div 2 < 2 ^ Suc k" by auto
  then have "log2_floor (x div 2) = Some k" by (rule Suc.IH)
  moreover from Suc.prems have "x \<noteq> 1"
    by (metis One_nat_def Suc_1 lessI not_less one_less_power zero_less_Suc)
  ultimately show ?case by (subst log2_floor.simps) simp
qed

lemma log2_ceil_between:
  assumes "2 ^ k < x" "x \<le> 2 ^ Suc k"
  shows "log2_ceil x = Some (Suc k)"
proof -
  have "(1::nat) \<le> 2 ^ k" by simp
  with assms(1) have "1 < x" by linarith
  moreover have "log2_floor (x - 1) = Some k"
    using assms by (intro log2_floor_between) auto
  ultimately show ?thesis by (simp add: log2_ceil_def)
qed

text \<open>
  Claim C9.  \<open>log2_ceil 1\<close> is 1; \<open>log2_ceil (2 ^ k)\<close> is \<open>k\<close> for every \<open>k \<ge> 1\<close>; and
  \<open>log2_ceil (2 ^ j + 1)\<close> is \<open>j + 1\<close> for every \<open>j\<close>.  The calls return (\<open>Some\<close>), and the
  equations hold for every exponent, so in particular for those whose power is a
  \<^verbatim>\<open>size_t\<close> value.
\<close>

theorem log2_ceil_rounding:
  "log2_ceil 1 = Some 1 \<and>
   (1 \<le> k \<longrightarrow> log2_ceil (2 ^ k) = Some k) \<and>
   log2_ceil (2 ^ j + 1) = Some (j + 1)"
proof (intro conjI impI)
  show "log2_ceil 1 = Some 1" by (simp add: log2_ceil_def)
  show "log2_ceil (2 ^ k) = Some k" if k1: "1 \<le> k"
  proof -
    obtain m where k: "k = Suc m" using k1 by (cases k) auto
    have "log2_ceil (2 ^ Suc m) = Some (Suc m)"
      by (rule log2_ceil_between) auto
    then show ?thesis by (simp add: k)
  qed
  have "log2_ceil (2 ^ j + 1) = Some (Suc j)"
    by (rule log2_ceil_between) (auto simp: Suc_leI)
  then show "log2_ceil (2 ^ j + 1) = Some (j + 1)" by simp
qed

theorem log2_ceil_rounding_witness:
  "log2_ceil 1 = Some 1 \<and> ((1::nat) \<le> 3 \<and> log2_ceil (2 ^ 3) = Some 3) \<and>
   log2_ceil (2 ^ 3 + 1) = Some (3 + 1)"
  using log2_ceil_rounding [of 3 3] by simp

section \<open>Streams too short for a header\<close>

lemma index_of_symbol_error:
  "index_of_symbol pk s = Inl e \<Longrightarrow> e = out_of_range ''index_of_symbol: out of range''"
  by (induction pk) (auto split: if_splits sum.splits)

text \<open>
  Claim C8.  Decoding a stream of one symbol fails with a MalformedStream error and
  writes nothing: with \<^verbatim>\<open>bad data 1\<close> when the symbol is in the pack alphabet, with the
  alphabet's \<^verbatim>\<open>out_of_range\<close> when it is not.  (The empty stream is the separate early
  return of \<^verbatim>\<open>decode\<close> and \<^verbatim>\<open>unpack_bits\<close>.)
\<close>

theorem decode_one_symbol:
  "\<exists>e. decode io pk [s] = Some (Inl (e, [])) \<and> MalformedStream e"
  by (auto simp: decode_def unpack_bits_def MalformedStream_def split: sum.splits
      dest: index_of_symbol_error)

text \<open>
  Claim C10.  Decoding a stream of exactly two symbols, a complete header with no payload,
  fails with a MalformedStream error (\<^verbatim>\<open>bad data 2\<close> when both symbols are in the pack
  alphabet) and never returns the empty output.
\<close>

theorem decode_two_symbols:
  "(\<exists>e. decode io pk [s1, s2] = Some (Inl (e, [])) \<and> MalformedStream e) \<and>
   decode io pk [s1, s2] \<noteq> Some (Inr [])"
  by (auto simp: decode_def unpack_bits_def MalformedStream_def split: sum.splits
      dest: index_of_symbol_error)

section \<open>Alphabets\<close>

lemma length_symbols [simp]: "length (symbols pr) = length_pr pr"
  by (induction pr) auto

lemma symbol_by_index_symbols:
  "symbol_by_index pr i =
     (if i < length_pr pr then Inr (symbols pr ! i)
      else Inl (out_of_range ''symbol_by_index: out of range''))"
  by (induction pr arbitrary: i) (auto simp: nth_append)

lemma symbol_by_index_error:
  "symbol_by_index pr i = Inl e \<Longrightarrow> e = out_of_range ''symbol_by_index: out of range''"
  by (simp add: symbol_by_index_symbols split: if_splits)

lemma index_of_symbol_Inr:
  "index_of_symbol pr c = Inr i \<Longrightarrow> i < length_pr pr \<and> symbols pr ! i = c"
proof (induction pr arbitrary: i)
  case (Single rh)
  then show ?case by (auto simp: length_sr_def split: if_splits)
next
  case (Pieces rh rt)
  show ?case
  proof (cases "lower rh \<le> c \<and> c \<le> upper rh")
    case True
    with Pieces.prems show ?thesis by (auto simp: length_sr_def nth_append)
  next
    case False
    with Pieces.prems obtain j where j: "index_of_symbol rt c = Inr j" "i = length_sr rh + j"
      by (auto split: sum.splits)
    from Pieces.IH [OF j(1)] j(2) show ?thesis by (simp add: nth_append)
  qed
qed

lemma apart_not_in:
  "apart rh rt \<Longrightarrow> ranges_ok rt \<Longrightarrow> i < length_pr rt \<Longrightarrow> \<not> in_range rh (symbols rt ! i)"
proof (induction rt arbitrary: i)
  case (Single r)
  then show ?case by (auto simp: in_range_def length_sr_def)
next
  case (Pieces r rt)
  then show ?case by (auto simp: in_range_def length_sr_def nth_append)
qed

lemma index_of_symbol_symbols:
  "disjoint_pr pr \<Longrightarrow> ranges_ok pr \<Longrightarrow> i < length_pr pr \<Longrightarrow>
   index_of_symbol pr (symbols pr ! i) = Inr i"
proof (induction pr arbitrary: i)
  case (Single rh)
  then show ?case by (auto simp: length_sr_def)
next
  case (Pieces rh rt)
  show ?case
  proof (cases "i < length_sr rh")
    case True
    then show ?thesis by (auto simp: nth_append length_sr_def)
  next
    case False
    with Pieces.prems have j: "i - length_sr rh < length_pr rt" by auto
    from Pieces.prems have "\<not> in_range rh (symbols rt ! (i - length_sr rh))"
      by (intro apart_not_in j) auto
    moreover have "index_of_symbol rt (symbols rt ! (i - length_sr rh)) = Inr (i - length_sr rh)"
      using Pieces.prems j by (intro Pieces.IH) auto
    ultimately show ?thesis using False by (auto simp: nth_append in_range_def)
  qed
qed

lemma distinct_symbols:
  assumes "disjoint_pr pr" "ranges_ok pr"
  shows "distinct (symbols pr)"
proof -
  have "i = j" if "i < length_pr pr" "j < length_pr pr" "symbols pr ! i = symbols pr ! j" for i j
  proof -
    have a: "index_of_symbol pr (symbols pr ! i) = Inr i"
      using assms that(1) by (rule index_of_symbol_symbols)
    have b: "index_of_symbol pr (symbols pr ! j) = Inr j"
      using assms that(2) by (rule index_of_symbol_symbols)
    from a have "index_of_symbol pr (symbols pr ! j) = Inr i" by (simp only: that(3))
    with b show ?thesis by simp
  qed
  then show ?thesis by (auto simp: distinct_conv_nth)
qed

section \<open>The encode dictionary as an enumeration of phrases\<close>

lemma map_fst_enum [simp]: "map fst (enum ps) = ps"
  by (simp add: enum_def)

lemma map_of_enum_None: "map_of (enum ps) p = None \<longleftrightarrow> p \<notin> set ps"
proof -
  have "fst ` set (enum ps) = set ps" by (metis map_fst_enum set_map)
  then show ?thesis by (simp add: map_of_eq_None_iff)
qed

lemma map_of_enum_Some:
  "distinct ps \<Longrightarrow> map_of (enum ps) p = Some i \<longleftrightarrow> i < length ps \<and> ps ! i = p"
proof
  assume "map_of (enum ps) p = Some i"
  then have "(p, i) \<in> set (zip ps [0..<length ps])" unfolding enum_def by (rule map_of_SomeD)
  then show "i < length ps \<and> ps ! i = p" by (auto simp: set_zip)
next
  assume d: "distinct ps" and "i < length ps \<and> ps ! i = p"
  then have "(p, i) \<in> set (zip ps [0..<length ps])" by (auto simp: set_zip)
  moreover have "distinct (map fst (zip ps [0..<length ps]))" using d by simp
  ultimately show "map_of (enum ps) p = Some i" unfolding enum_def by (rule map_of_is_SomeI [rotated])
qed

lemma enum_snoc: "enum (ps @ [p]) = enum ps @ [(p, length ps)]"
  by (simp add: enum_def)

lemma length_enum [simp]: "length (enum ps) = length ps"
  by (simp add: enum_def)

lemma emplace_enum:
  "emplace (enum ps) p (length ps) =
     (if p \<in> set ps then (enum ps, False) else (enum (ps @ [p]), True))"
proof (cases "map_of (enum ps) p")
  case None
  moreover from None have "p \<notin> set ps" using map_of_enum_None [of ps p] by blast
  ultimately show ?thesis unfolding emplace_def by (simp only: enum_snoc option.case if_False)
next
  case (Some i)
  moreover from Some have "p \<in> set ps" using map_of_enum_None [of ps p] by auto
  ultimately show ?thesis unfolding emplace_def by (simp only: option.case if_True)
qed

lemma at_dict_enum:
  assumes d: "distinct ps"
  shows "at_dict (enum ps) p = Inr i \<longleftrightarrow> i < length ps \<and> ps ! i = p"
proof (cases "map_of (enum ps) p")
  case None
  then have "p \<notin> set ps" using map_of_enum_None [of ps p] by blast
  then have "\<not> (i < length ps \<and> ps ! i = p)" by auto
  moreover have "at_dict (enum ps) p \<noteq> Inr i" unfolding at_dict_def None by simp
  ultimately show ?thesis by blast
next
  case (Some j)
  then have j: "j < length ps \<and> ps ! j = p" using map_of_enum_Some [OF d, of p j] by blast
  have "at_dict (enum ps) p = Inr j" unfolding at_dict_def Some by simp
  moreover have "(i < length ps \<and> ps ! i = p) \<longleftrightarrow> j = i"
  proof
    assume "i < length ps \<and> ps ! i = p"
    then have "ps ! i = ps ! j" "i < length ps" using j by simp_all
    then show "j = i" using d j nth_eq_iff_index_eq [of ps i j] by simp
  next
    assume "j = i"
    then show "i < length ps \<and> ps ! i = p" using j by simp
  qed
  ultimately show ?thesis by auto
qed

lemma decode_dict_fill_eq:
  "\<forall>i\<in>set is. i < length_pr io \<Longrightarrow>
   decode_dict_fill io is dict = Inr (dict @ map (\<lambda>i. [symbols io ! i]) is)"
proof (induction "is" arbitrary: dict)
  case Nil
  then show ?case by simp
next
  case (Cons i "is")
  then have "symbol_by_index io i = Inr (symbols io ! i)"
    by (simp add: symbol_by_index_symbols)
  moreover have "decode_dict_fill io is (dict @ [[symbols io ! i]]) =
      Inr ((dict @ [[symbols io ! i]]) @ map (\<lambda>i. [symbols io ! i]) is)"
    using Cons.prems by (intro Cons.IH) simp
  ultimately show ?case by simp
qed

lemma decode_dict_eq: "decode_dict io = Inr (map (\<lambda>s. [s]) (symbols io))"
proof -
  have "map (\<lambda>i. [symbols io ! i]) [0..<length_pr io] = map (\<lambda>s. [s]) (symbols io)"
    by (rule nth_equalityI) simp_all
  moreover have "decode_dict_fill io [0..<length_pr io] [] =
      Inr ([] @ map (\<lambda>i. [symbols io ! i]) [0..<length_pr io])"
    by (rule decode_dict_fill_eq) simp
  ultimately show ?thesis by (simp add: decode_dict_def)
qed

lemma encode_dict_fill_eq:
  assumes "distinct (symbols io)"
  shows "\<forall>i\<in>set is. i < length_pr io \<Longrightarrow> distinct is \<Longrightarrow>
    \<forall>i\<in>set is. [symbols io ! i] \<notin> fst ` set dict \<Longrightarrow>
    encode_dict_fill io is dict = Inr (dict @ map (\<lambda>i. ([symbols io ! i], i)) is)"
proof (induction "is" arbitrary: dict)
  case Nil
  then show ?case by simp
next
  case (Cons i "is")
  let ?s = "symbols io ! i"
  let ?d = "dict @ [([?s], i)]"
  from Cons.prems have sym: "symbol_by_index io i = Inr ?s"
    by (simp add: symbol_by_index_symbols)
  from Cons.prems have "map_of dict [?s] = None"
    by (simp add: map_of_eq_None_iff)
  then have emp: "fst (emplace dict [?s] i) = ?d" by (simp add: emplace_def)
  have fresh: "[symbols io ! j] \<notin> fst ` set ?d" if j: "j \<in> set is" for j
  proof -
    from Cons.prems j have "j \<noteq> i" "j < length_pr io" "i < length_pr io" by auto
    with assms have "symbols io ! j \<noteq> ?s" by (simp add: nth_eq_iff_index_eq)
    moreover from Cons.prems j have "[symbols io ! j] \<notin> fst ` set dict" by simp
    ultimately show ?thesis by auto
  qed
  have "encode_dict_fill io is ?d = Inr (?d @ map (\<lambda>i. ([symbols io ! i], i)) is)"
  proof (rule Cons.IH)
    show "\<forall>i\<in>set is. i < length_pr io" using Cons.prems by simp
    show "distinct is" using Cons.prems by simp
    show "\<forall>i\<in>set is. [symbols io ! i] \<notin> fst ` set ?d" using fresh by blast
  qed
  with sym emp show ?case by simp
qed

lemma encode_dict_eq:
  assumes "distinct (symbols io)"
  shows "encode_dict io = Inr (enum (map (\<lambda>s. [s]) (symbols io)))"
proof -
  have "encode_dict_fill io [0..<length_pr io] [] =
      Inr ([] @ map (\<lambda>i. ([symbols io ! i], i)) [0..<length_pr io])"
    using assms by (rule encode_dict_fill_eq) simp_all
  moreover have "map (\<lambda>i. ([symbols io ! i], i)) [0..<length_pr io] =
      enum (map (\<lambda>s. [s]) (symbols io))"
    unfolding enum_def by (rule nth_equalityI) simp_all
  ultimately show ?thesis by (simp add: encode_dict_def)
qed

section \<open>The encode loop against the decode loop\<close>

lemma size_t_add_small: "a + b < 2 ^ 64 \<Longrightarrow> size_t_add a b = a + b"
  by (simp add: size_t_add_def)

lemma size_t_sub_small:
  assumes "b \<le> a" "a < 2 ^ 64"
  shows "size_t_sub a b = a - b"
proof -
  have "a + 2 ^ 64 - b = (a - b) + 2 ^ 64" using assms by simp
  then have "size_t_sub a b = ((a - b) + 2 ^ 64) mod 2 ^ 64" by (simp only: size_t_sub_def)
  also have "\<dots> = (a - b) mod 2 ^ 64" by (rule mod_add_self2)
  also have "\<dots> = a - b" using assms by (intro mod_less) simp
  finally show ?thesis .
qed

lemma Max_insert_max:
  "finite S \<Longrightarrow> Max (insert (max a b) S) = Max (insert a (insert b S))"
  by (cases "S = {}") (simp_all add: max.assoc)

lemma nth_nonempty:
  assumes "[] \<notin> set (R @ ys)" "old < length R"
  shows "R ! old \<noteq> []"
proof -
  have "R ! old \<in> set R" using assms(2) by (rule nth_mem)
  with assms(1) show ?thesis by auto
qed

lemma decode_loop_step:
  assumes old: "old < length R" "R ! old = q" and q: "q \<noteq> []"
    and ps: "ps = R @ [q @ [hd phrase]]"
    and k: "k < length ps" "ps ! k = phrase" and phrase: "phrase \<noteq> []"
  shows "decode_loop R old (k # cs) out = decode_loop ps k cs (out @ phrase)"
proof (cases "k < length R")
  case True
  with ps k have Rk: "R ! k = phrase" by (simp add: nth_append)
  from phrase obtain e0 es where e: "phrase = e0 # es" by (cases phrase) auto
  show ?thesis using old True Rk e ps by simp
next
  case False
  with k ps have "k = length R" by simp
  with k ps have p: "phrase = q @ [hd phrase]" by simp
  from q obtain t0 ts where t: "q = t0 # ts" by (cases q) auto
  from p t have "hd phrase = t0" by (metis append_Cons list.sel(1))
  with p ps have "ps = R @ [q @ [t0]]" "phrase = q @ [t0]" by simp_all
  then show ?thesis using old False t by simp
qed

lemma emplace_code_enum:
  assumes "distinct ps" "emplace_code (enum ps) phrase mc codes = Inr (mc', codes')"
  shows "\<exists>k. k < length ps \<and> ps ! k = phrase \<and> mc' = max mc k \<and> codes' = codes @ [k]"
proof -
  from assms(2) obtain k where k: "at_dict (enum ps) phrase = Inr k" "mc' = max mc k" "codes' = codes @ [k]"
    by (auto simp: emplace_code_def split: sum.splits)
  from k(1) assms(1) have "k < length ps \<and> ps ! k = phrase" by (simp only: at_dict_enum)
  with k show ?thesis by blast
qed

lemma encode_loop_decode_loop:
  assumes "distinct ps" "[] \<notin> set ps" "phrase \<noteq> []"
    and "ps = R @ [q @ [hd phrase]]" "old < length R" "R ! old = q"
    and "length ps + length xs < 2 ^ 64"
    and "encode_loop (enum ps) (length ps) mc codes phrase xs = Inr (d', nc', mc', codes', phrase')"
    and "emplace_code d' phrase' mc' codes' = Inr (mc'', codes'')"
  shows "\<exists>new. codes'' = codes @ new \<and>
           (\<forall>out. decode_loop R old new out = Inr (out @ phrase @ xs)) \<and>
           mc'' = Max (insert mc (set new)) \<and>
           (\<forall>c\<in>set new. c < length ps + length xs)"
  using assms
proof (induction xs arbitrary: ps R q old phrase codes mc)
  case Nil
  from Nil.prems(8) have st: "d' = enum ps" "mc' = mc" "codes' = codes" "phrase' = phrase" by simp_all
  from emplace_code_enum [OF Nil.prems(1) Nil.prems(9) [unfolded st]]
  obtain k where k: "k < length ps" "ps ! k = phrase" "mc'' = max mc k" "codes'' = codes @ [k]"
    by blast
  have q: "q \<noteq> []"
    using nth_nonempty [OF Nil.prems(2) [unfolded Nil.prems(4)] Nil.prems(5)] Nil.prems(6) by simp
  have "decode_loop R old [k] out = Inr (out @ phrase)" for out
    using decode_loop_step [OF Nil.prems(5,6) q Nil.prems(4) k(1,2) Nil.prems(3), of "[]" out] by simp
  with k show ?case by (intro exI [of _ "[k]"]) (simp add: max.commute)
next
  case (Cons c rest)
  let ?tmp = "phrase @ [c]"
  have q: "q \<noteq> []"
    using nth_nonempty [OF Cons.prems(2) [unfolded Cons.prems(4)] Cons.prems(5)] Cons.prems(6) by simp
  show ?case
  proof (cases "?tmp \<in> set ps")
    case True
    then have "emplace (enum ps) ?tmp (length ps) = (enum ps, False)" by (simp add: emplace_enum)
    with Cons.prems(8) have
      run: "encode_loop (enum ps) (length ps) mc codes ?tmp rest = Inr (d', nc', mc', codes', phrase')"
      by (simp add: Let_def)
    have "\<exists>new. codes'' = codes @ new \<and>
           (\<forall>out. decode_loop R old new out = Inr (out @ ?tmp @ rest)) \<and>
           mc'' = Max (insert mc (set new)) \<and>
           (\<forall>c\<in>set new. c < length ps + length rest)"
    proof (rule Cons.IH [OF Cons.prems(1,2) _ _ Cons.prems(5,6) _ run Cons.prems(9)])
      show "?tmp \<noteq> []" by simp
      show "ps = R @ [q @ [hd ?tmp]]" using Cons.prems(3,4) by simp
      show "length ps + length rest < 2 ^ 64" using Cons.prems(7) by simp
    qed
    then show ?thesis by fastforce
  next
    case False
    let ?ps' = "ps @ [?tmp]"
    from False have emp: "emplace (enum ps) ?tmp (length ps) = (enum ?ps', True)"
      by (simp add: emplace_enum)
    have d': "distinct ?ps'" using Cons.prems(1) False by simp
    from Cons.prems(8) emp obtain mc1 codes1 where
      ec: "emplace_code (enum ?ps') phrase mc codes = Inr (mc1, codes1)" and
      run: "encode_loop (enum ?ps') (size_t_add (length ps) 1) mc1 codes1 [c] rest =
              Inr (d', nc', mc', codes', phrase')"
      by (auto simp: Let_def split: sum.splits)
    from emplace_code_enum [OF d' ec]
    obtain k where k: "k < length ?ps'" "?ps' ! k = phrase" "mc1 = max mc k" "codes1 = codes @ [k]"
      by blast
    have kps: "k < length ps \<and> ps ! k = phrase"
    proof (cases "k < length ps")
      case True
      with k(2) show ?thesis by (simp add: nth_append)
    next
      case False
      with k have "?tmp = phrase" by (simp add: nth_append)
      then show ?thesis by simp
    qed
    have nc: "size_t_add (length ps) 1 = length ?ps'"
      using Cons.prems(7) by (simp add: size_t_add_small)
    have "\<exists>new. codes'' = codes1 @ new \<and>
           (\<forall>out. decode_loop ps k new out = Inr (out @ [c] @ rest)) \<and>
           mc'' = Max (insert mc1 (set new)) \<and>
           (\<forall>c\<in>set new. c < length ?ps' + length rest)"
    proof (rule Cons.IH [OF d' _ _ _ _ _ _ run [unfolded nc] Cons.prems(9)])
      show "[] \<notin> set ?ps'" using Cons.prems(2) by simp
      show "[c] \<noteq> []" by simp
      show "?ps' = ps @ [phrase @ [hd [c]]]" by simp
      show "k < length ps" using kps by simp
      show "ps ! k = phrase" using kps by simp
      show "length ?ps' + length rest < 2 ^ 64" using Cons.prems(7) by simp
    qed
    then obtain new where new: "codes'' = codes1 @ new"
      "\<And>out. decode_loop ps k new out = Inr (out @ [c] @ rest)"
      "mc'' = Max (insert mc1 (set new))" "\<forall>c\<in>set new. c < length ?ps' + length rest"
      by blast
    have dec: "decode_loop R old (k # new) out = Inr (out @ phrase @ c # rest)" for out
      using decode_loop_step [OF Cons.prems(5,6) q Cons.prems(4) _ _ Cons.prems(3), of k new out]
        kps new(2) [of "out @ phrase"] by simp
    have mx: "mc'' = Max (insert mc (set (k # new)))"
    proof -
      have "Max (insert (max mc k) (set new)) = Max (insert mc (insert k (set new)))"
        by (rule Max_insert_max) simp
      then show ?thesis using new(3) k(3) by simp
    qed
    have bd: "\<forall>i\<in>set (k # new). i < length ps + length (c # rest)"
      using new(4) kps by auto
    show ?thesis
      by (intro exI [of _ "k # new"]) (use new(1) k(4) dec mx bd in auto)
  qed
qed

lemma log2_floor_Some:
  assumes "0 < x"
  shows "\<exists>k. log2_floor x = Some k \<and> 2 ^ k \<le> x \<and> x < 2 ^ Suc k"
proof -
  have "\<exists>k. 2 ^ k \<le> x \<and> x < 2 ^ (k + 1)"
    using assms by (intro ex_power_ivl1) simp_all
  then obtain k where k: "2 ^ k \<le> x" "x < 2 ^ Suc k" by auto
  then have "log2_floor x = Some k" by (rule log2_floor_between)
  with k show ?thesis by blast
qed

lemma log2_ceil_Some:
  "\<exists>b. log2_ceil x = Some b \<and> 1 \<le> b \<and> x \<le> 2 ^ b \<and> (\<forall>b'. 1 \<le> b' \<and> x \<le> 2 ^ b' \<longrightarrow> b \<le> b')"
proof (cases "x \<le> 1")
  case True
  then have "log2_ceil x = Some 1" by (simp add: log2_ceil_def)
  moreover have "x \<le> 2 ^ 1" using True by simp
  ultimately show ?thesis by blast
next
  case False
  then have "\<exists>k. 2 ^ k < x \<and> x \<le> 2 ^ (k + 1)"
    by (intro ex_power_ivl2) simp_all
  then obtain k where k: "2 ^ k < x" "x \<le> 2 ^ Suc k" by auto
  then have "log2_ceil x = Some (Suc k)" by (rule log2_ceil_between)
  moreover have "Suc k \<le> b'" if "x \<le> 2 ^ b'" for b' :: nat
  proof -
    from k(1) that have "(2::nat) ^ k < 2 ^ b'" by (rule less_le_trans)
    then have "k < b'" by simp
    then show ?thesis by simp
  qed
  ultimately show ?thesis using k(2) by auto
qed

lemma singleton_base:
  "p \<in> set (map (\<lambda>s. [s]) ss) \<Longrightarrow> length p = 1"
  by auto

lemma encode_codes_spec:
  assumes dist: "distinct (symbols io)" and n0: "0 < length_pr io"
    and len: "length_pr io + length xs < 2 ^ 64"
    and enc: "encode_codes io x xs = Inr (codes, max_code)"
  shows "\<exists>k cs. codes = k # cs \<and> k < length_pr io \<and> symbols io ! k = x \<and>
           decode_loop (map (\<lambda>s. [s]) (symbols io)) k cs [x] = Inr (x # xs) \<and>
           max_code = Max (insert (length_pr io - 1) (set codes)) \<and>
           (\<forall>c\<in>set codes. c < length_pr io + length xs)"
proof -
  let ?base = "map (\<lambda>s. [s]) (symbols io)"
  let ?n = "length_pr io"
  have dbase: "distinct ?base" using dist by (simp add: distinct_map inj_on_def)
  have lbase: "length ?base = ?n" by simp
  have sub: "size_t_sub ?n (Suc 0) = ?n - Suc 0"
    using size_t_sub_small [of 1 ?n] n0 len by simp
  from enc obtain d' nc' mc' codes' phrase' where
    run: "encode_loop (enum ?base) ?n (?n - 1) [] [x] xs = Inr (d', nc', mc', codes', phrase')" and
    fin: "emplace_code d' phrase' mc' codes' = Inr (max_code, codes)"
    unfolding encode_codes_def encode_dict_eq [OF dist]
    by (auto simp: Let_def sub split: sum.splits)
  show ?thesis
  proof (cases xs)
    case Nil
    with run have st: "d' = enum ?base" "mc' = ?n - 1" "codes' = []" "phrase' = [x]" by auto
    from emplace_code_enum [OF dbase fin [unfolded st]]
    obtain k where k: "k < length ?base" "?base ! k = [x]" "max_code = max (?n - 1) k" "codes = [] @ [k]"
      by blast
    then have "symbols io ! k = x" by simp
    with k Nil show ?thesis by (simp add: max.commute)
  next
    case (Cons c rest)
    let ?tmp = "[x, c]"
    let ?ps = "?base @ [?tmp]"
    have notin: "[x] @ [c] \<notin> set ?base" using singleton_base [of "[x] @ [c]" "symbols io"] by auto
    have emp: "emplace (enum ?base) ([x] @ [c]) ?n = (enum ?ps, True)"
      using emplace_enum [of ?base "[x] @ [c]"] notin by (simp only: lbase if_False append.simps)
    have dps: "distinct ?ps" using dbase notin by simp
    from run [unfolded Cons] emp obtain mc1 codes1 where
      ec: "emplace_code (enum ?ps) [x] (?n - 1) [] = Inr (mc1, codes1)" and
      run': "encode_loop (enum ?ps) (size_t_add ?n 1) mc1 codes1 [c] rest =
              Inr (d', nc', mc', codes', phrase')"
      by (auto simp: Let_def split: sum.splits)
    from emplace_code_enum [OF dps ec]
    obtain k where k: "k < length ?ps" "?ps ! k = [x]" "mc1 = max (?n - 1) k" "codes1 = [] @ [k]"
      by blast
    have kb: "k < ?n \<and> ?base ! k = [x]"
    proof (cases "k < ?n")
      case True
      with k(2) show ?thesis by (simp add: nth_append)
    next
      case False
      with k have "?tmp = [x]" by (simp add: nth_append)
      then show ?thesis by simp
    qed
    have nc: "size_t_add ?n 1 = length ?ps" using len Cons by (simp add: size_t_add_small)
    have "\<exists>new. codes = codes1 @ new \<and>
           (\<forall>out. decode_loop ?base k new out = Inr (out @ [c] @ rest)) \<and>
           max_code = Max (insert mc1 (set new)) \<and>
           (\<forall>c\<in>set new. c < length ?ps + length rest)"
    proof (rule encode_loop_decode_loop [OF dps _ _ _ _ _ _ run' [unfolded nc] fin])
      show "[] \<notin> set ?ps" by auto
      show "[c] \<noteq> []" by simp
      show "?ps = ?base @ [[x] @ [hd [c]]]" by simp
      show "k < length ?base" using kb by simp
      show "?base ! k = [x]" using kb by simp
      show "length ?ps + length rest < 2 ^ 64" using len Cons by simp
    qed
    then obtain new where new: "codes = codes1 @ new"
      "\<And>out. decode_loop ?base k new out = Inr (out @ [c] @ rest)"
      "max_code = Max (insert mc1 (set new))" "\<forall>c\<in>set new. c < length ?ps + length rest"
      by blast
    have "Max (insert (max (?n - 1) k) (set new)) = Max (insert (?n - 1) (insert k (set new)))"
      by (rule Max_insert_max) simp
    with new(3) k(3) have mx: "max_code = Max (insert (?n - 1) (set (k # new)))" by simp
    from kb have "k < length (symbols io)" "map (\<lambda>s. [s]) (symbols io) ! k = [x]" by simp_all
    then have sym: "symbols io ! k = x" by simp
    have bd: "\<forall>i\<in>set (k # new). i < ?n + length xs" using new(4) kb Cons by auto
    have dec: "decode_loop ?base k new [x] = Inr (x # xs)" using new(2) [of "[x]"] Cons by simp
    have cs: "codes = k # new" using new(1) k(4) by simp
    show ?thesis using cs kb sym dec mx bd by blast
  qed
qed

section \<open>What the packing loops write\<close>

lemma not_CapacityExceeded [simp]:
  "\<not> CapacityExceeded (undefined_behaviour m)" "\<not> CapacityExceeded (out_of_range m)"
  by (simp_all add: CapacityExceeded_def)

lemma pack_fact_snoc: "pack_fact (out @ [s]) r \<Longrightarrow> pack_fact out r"
proof (cases r)
  case (Inl a)
  assume "pack_fact (out @ [s]) r"
  with Inl show ?thesis by (simp add: pack_fact_def split: prod.splits)
next
  case (Inr b)
  assume a: "pack_fact (out @ [s]) r"
  obtain sd acc out' where b: "b = (sd, acc, out')" by (cases b) auto
  from a Inr b have "take (Suc (length out)) out' = out @ [s]" by (simp add: pack_fact_def)
  then have "take (length out) (take (Suc (length out)) out') = take (length out) (out @ [s])"
    by simp
  then have "take (length out) out' = out" by (simp add: min_def)
  with Inr b show ?thesis by (simp add: pack_fact_def)
qed

lemma pack_code_fact:
  assumes "pack_code pk0 cap0 bit_depth0 code0 code_done0 symbol_done0 symbol_acc0 out0 = Some r0"
  shows "pack_fact out0 r0"
proof (rule pack_code.raw_induct [where P = "\<lambda>_ _ _ _ _ _ _ out r. pack_fact out r", OF _ assms])
  fix f :: "piecewise_range \<Rightarrow> size_t \<Rightarrow> size_t \<Rightarrow> size_t \<Rightarrow> size_t \<Rightarrow> size_t \<Rightarrow> size_t
      \<Rightarrow> int list \<Rightarrow> (size_t \<times> size_t \<times> int list) writer"
  fix pk cap bit_depth code code_done symbol_done symbol_acc out r
  assume IH: "\<And>pk cap bit_depth code code_done symbol_done symbol_acc out r.
      f pk cap bit_depth code code_done symbol_done symbol_acc out = Some r \<Longrightarrow> pack_fact out r"
  assume "(if code_done < bit_depth then
        (let symbol_left = size_t_sub cap symbol_done;
             code_left = size_t_sub bit_depth code_done;
             bits_to_write = min symbol_left code_left
         in if SIZE_T_BITS \<le> code_done \<or> SIZE_T_BITS \<le> bits_to_write
                 \<or> SIZE_T_BITS \<le> symbol_done
            then Some (Inl (undefined_behaviour ''shift count'', out))
            else
              (let mask = drop_bit code_done code;
                   mask' = and mask (size_t_sub (size_t_shl 1 bits_to_write) 1);
                   mask'' = size_t_shl mask' symbol_done;
                   symbol_acc' = or symbol_acc mask'';
                   code_done' = size_t_add code_done bits_to_write;
                   symbol_done' = size_t_add symbol_done bits_to_write
               in if symbol_done' = cap then
                    (case symbol_by_index pk symbol_acc' of
                       Inl e \<Rightarrow> Some (Inl (e, out))
                     | Inr s \<Rightarrow>
                         f pk cap bit_depth code code_done' 0 0 (out @ [s]))
                  else f pk cap bit_depth code code_done' symbol_done' symbol_acc' out))
      else Some (Inr (symbol_done, symbol_acc, out))) = Some r"
  note 1 = IH this
  define w where "w = min (size_t_sub cap symbol_done) (size_t_sub bit_depth code_done)"
  define acc where "acc = or symbol_acc (size_t_shl (and (drop_bit code_done code)
                    (size_t_sub (size_t_shl 1 w) 1)) symbol_done)"
  note body = 1(2) [unfolded Let_def, folded w_def, folded acc_def]
  show "pack_fact out r"
  proof (cases "code_done < bit_depth")
    case False
    with body show ?thesis by (auto simp: pack_fact_def)
  next
    case True
    note cd = this
    show ?thesis
    proof (cases "SIZE_T_BITS \<le> code_done \<or> SIZE_T_BITS \<le> w \<or> SIZE_T_BITS \<le> symbol_done")
      case True
      with body cd have "r = Inl (undefined_behaviour ''shift count'', out)" by (simp only: if_True) simp
      then show ?thesis by (simp add: pack_fact_def)
    next
      case False
      note ub = this
      show ?thesis
      proof (cases "size_t_add symbol_done w = cap")
        case False
        with body cd ub have "f pk cap bit_depth code (size_t_add code_done w)
            (size_t_add symbol_done w) acc out = Some r"
          by (simp only: if_True if_False)
        then show ?thesis by (rule 1(1))
      next
        case True
        note full = this
        show ?thesis
        proof (cases "symbol_by_index pk acc")
          case (Inl e)
          with body cd ub full have "r = Inl (e, out)" by (simp only: if_True if_False) simp
          moreover from Inl have "e = out_of_range ''symbol_by_index: out of range''"
            by (rule symbol_by_index_error)
          ultimately show ?thesis by (simp add: pack_fact_def)
        next
          case (Inr s)
          with body cd ub full have "f pk cap bit_depth code (size_t_add code_done w)
              0 0 (out @ [s]) = Some r"
            by (simp only: if_True if_False) simp
          then have "pack_fact (out @ [s]) r" by (rule 1(1))
          then show ?thesis by (rule pack_fact_snoc)
        qed
      qed
    qed
  qed
qed

lemma pack_fact_trans:
  assumes "pack_fact out (Inr (sd, acc, out'))" "pack_fact out' r"
  shows "pack_fact out r"
proof (cases r)
  case (Inl a)
  with assms(2) show ?thesis by (simp add: pack_fact_def split: prod.splits)
next
  case (Inr b)
  obtain sd' acc' out'' where b: "b = (sd', acc', out'')" by (cases b) auto
  from assms(1) have 1: "take (length out) out' = out" by (simp add: pack_fact_def)
  from assms(2) Inr b have 2: "take (length out') out'' = out'" by (simp add: pack_fact_def)
  have le: "length out \<le> length out'" using arg_cong [OF 1, of length] by simp
  have "take (length out) out'' = take (length out) (take (length out') out'')"
    using le by (simp add: min_def)
  also have "\<dots> = out" using 1 2 by simp
  finally show ?thesis using Inr b by (simp add: pack_fact_def)
qed

lemma pack_codes_fact:
  "pack_codes pk cap bit_depth src symbol_done symbol_acc out = Some r \<Longrightarrow> pack_fact out r"
proof (induction src arbitrary: symbol_done symbol_acc out)
  case Nil
  then show ?case by (auto simp: pack_fact_def)
next
  case (Cons code src)
  from Cons.prems obtain r1 where
    r1: "pack_code pk cap bit_depth code 0 symbol_done symbol_acc out = Some r1"
    by (auto split: option.splits)
  then have f1: "pack_fact out r1" by (rule pack_code_fact)
  show ?case
  proof (cases r1)
    case (Inl e)
    with Cons.prems r1 have "r = Inl e" by simp
    with f1 Inl show ?thesis by simp
  next
    case (Inr b)
    obtain sd acc out' where b: "b = (sd, acc, out')" by (cases b) auto
    with Cons.prems r1 Inr have "pack_codes pk cap bit_depth src sd acc out' = Some r" by simp
    then have "pack_fact out' r" by (rule Cons.IH)
    with f1 Inr b show ?thesis by (auto intro: pack_fact_trans)
  qed
qed

lemma pack_bits_fact:
  assumes "pack_bits pk src bit_depth = Some r"
  shows "case r of
           Inl (e, w) \<Rightarrow> \<not> CapacityExceeded e
         | Inr y \<Rightarrow> \<exists>cap h1 h2. bit_capacity pk = Some cap \<and> cap \<noteq> 0 \<and>
               symbol_by_index pk bit_depth = Inr h1 \<and>
               symbol_by_index pk (pack_dead_bits cap bit_depth (length src)) = Inr h2 \<and>
               take 2 y = [h1, h2]"
proof -
  from assms obtain cap where cap: "bit_capacity pk = Some cap"
    by (auto simp: pack_bits_def split: option.splits)
  show ?thesis
  proof (cases "cap = 0")
    case True
    with assms cap show ?thesis by (auto simp: pack_bits_def)
  next
    case False
    note c0 = this
    let ?d = "pack_dead_bits cap bit_depth (length src)"
    show ?thesis
    proof (cases "symbol_by_index pk bit_depth")
      case (Inl e)
      with assms cap c0 have "r = Inl (e, [])" by (simp add: pack_bits_def)
      with symbol_by_index_error [OF Inl] show ?thesis by simp
    next
      case (Inr h1)
      note h1 = this
      show ?thesis
      proof (cases "symbol_by_index pk ?d")
        case (Inl e)
        with assms cap c0 h1 have "r = Inl (e, [h1])" by (simp add: pack_bits_def)
        with symbol_by_index_error [OF Inl] show ?thesis by simp
      next
        case (Inr h2)
        note h2 = this
        from assms cap c0 h1 h2 obtain r1 where
          r1: "pack_codes pk cap bit_depth src 0 0 [h1, h2] = Some r1"
          by (auto simp: pack_bits_def split: option.splits)
        then have f1: "pack_fact [h1, h2] r1" by (rule pack_codes_fact)
        show ?thesis
        proof (cases r1)
          case (Inl e)
          with assms cap c0 h1 h2 r1 have "r = Inl e" by (simp add: pack_bits_def)
          with f1 Inl show ?thesis by (auto simp: pack_fact_def)
        next
          case (Inr b)
          obtain sd acc out where b: "b = (sd, acc, out)" by (cases b) auto
          from f1 Inr b have pre: "take 2 out = [h1, h2]"
            by (simp add: pack_fact_def numeral_2_eq_2)
          have len2: "2 \<le> length out" using arg_cong [OF pre, of length] by simp
          show ?thesis
          proof (cases "sd \<noteq> 0")
            case False
            with assms cap c0 h1 h2 r1 Inr b have "r = Inr out" by (simp add: pack_bits_def)
            with pre cap c0 h1 h2 show ?thesis by simp
          next
            case True
            show ?thesis
            proof (cases "symbol_by_index pk acc")
              case (Inl e)
              with assms cap c0 h1 h2 r1 \<open>r1 = Inr b\<close> b True have "r = Inl (e, out)"
                by (simp add: pack_bits_def)
              with symbol_by_index_error [OF Inl] show ?thesis by simp
            next
              case (Inr s)
              with assms cap c0 h1 h2 r1 \<open>r1 = Inr b\<close> b True have "r = Inr (out @ [s])"
                by (simp add: pack_bits_def)
              moreover from pre len2 have "take 2 (out @ [s]) = [h1, h2]" by simp
              ultimately show ?thesis using cap c0 h1 h2 by simp
            qed
          qed
        qed
      qed
    qed
  qed
qed

section \<open>Arithmetic of the header\<close>

lemma wrap_sub:
  fixes X b M :: nat
  assumes "b \<le> X" "b < M" "X - b < M"
  shows "(X mod M + M - b) mod M = X - b"
proof -
  have less: "(X - b) mod M = X - b" using assms(3) by (rule mod_less)
  show ?thesis
  proof (cases "X < M")
    case True
    then have 1: "X mod M = X" by simp
    have 2: "X + M - b = (X - b) + M" using assms(1) by simp
    have "(X mod M + M - b) mod M = ((X - b) + M) mod M" by (simp only: 1 2)
    also have "\<dots> = (X - b) mod M" by (rule mod_add_self2)
    finally show ?thesis by (simp only: less)
  next
    case False
    then have "X mod M = (X - M) mod M" by (simp add: le_mod_geq)
    also have "\<dots> = X - M" using assms by (intro mod_less) linarith
    finally have 1: "X mod M = X - M" .
    have 2: "X - M + M - b = X - b" using False by simp
    show ?thesis by (simp only: 1 2 less)
  qed
qed

lemma pack_dead_bits_eq:
  assumes cap: "0 < cap" "cap \<le> 2 ^ 64" and bits: "0 < bit_depth * n" "bit_depth * n < 2 ^ 64"
  shows "pack_dead_bits cap bit_depth n = (cap - (bit_depth * n) mod cap) mod cap"
    and "pack_dead_bits cap bit_depth n < cap"
proof -
  define bits where "bits = bit_depth * n"
  have bits0: "0 < bits" "bits < 2 ^ 64" using bits by (simp_all only: bits_def)
  define q where "q = (bits - 1) div cap"
  define r where "r = (bits - 1) mod cap"
  have r: "r < cap" using cap by (simp add: r_def)
  have b1: "bits - 1 = q * cap + r" by (simp add: q_def r_def)
  with bits0 have b: "bits = q * cap + r + 1" by linarith
  have mul: "size_t_mul bit_depth n = bits"
    using bits0 by (simp add: size_t_mul_def flip: bits_def)
  have sub1: "size_t_sub bits 1 = bits - 1"
    using bits0 by (intro size_t_sub_small) simp_all
  have "q \<le> bits - 1" by (simp add: q_def)
  then have "q + 1 < 2 ^ 64" using bits0 by linarith
  then have os: "size_t_add q 1 = q + 1" by (rule size_t_add_small)
  have X: "(q + 1) * cap - bits = cap - r - 1" "bits \<le> (q + 1) * cap"
    using r by (simp_all add: b)
  have wr: "size_t_sub (size_t_mul (q + 1) cap) bits = (q + 1) * cap - bits"
    unfolding size_t_sub_def size_t_mul_def
  proof (rule wrap_sub)
    show "bits \<le> (q + 1) * cap" by (rule X)
    show "bits < 2 ^ 64" by (rule bits0)
    show "(q + 1) * cap - bits < 2 ^ 64" using X(1) cap r by simp
  qed
  have "pack_dead_bits cap bit_depth n =
      size_t_sub (size_t_mul (size_t_add (size_t_sub (size_t_mul bit_depth n) 1 div cap) 1) cap)
        (size_t_mul bit_depth n)"
    by (simp only: pack_dead_bits_def Let_def)
  also have "\<dots> = size_t_sub (size_t_mul (size_t_add q 1) cap) bits"
    by (simp only: mul sub1 q_def)
  also have "\<dots> = (q + 1) * cap - bits" by (simp only: os wr)
  also have "\<dots> = cap - r - 1" by (rule X(1))
  finally have d: "pack_dead_bits cap bit_depth n = cap - r - 1" .
  show "pack_dead_bits cap bit_depth n < cap" using d cap by simp
  have "(cap - bits mod cap) mod cap = cap - r - 1"
  proof (cases "r + 1 = cap")
    case True
    then have "bits = (q + 1) * cap" by (simp add: b)
    then have "bits mod cap = 0" by simp
    with True show ?thesis by simp
  next
    case False
    with r have lt: "r + 1 < cap" by simp
    have "bits mod cap = (r + 1) mod cap" by (simp add: b add.assoc)
    with lt have "bits mod cap = r + 1" by simp
    with lt show ?thesis by simp
  qed
  with d show "pack_dead_bits cap bit_depth n = (cap - (bit_depth * n) mod cap) mod cap"
    by (simp add: bits_def)
qed

lemma length_sr_pos: "lower r \<le> upper r \<Longrightarrow> 0 < length_sr r"
  by (simp add: length_sr_def)

lemma length_pr_pos: "ranges_ok pr \<Longrightarrow> 0 < length_pr pr"
  by (cases pr) (simp_all add: length_sr_pos)

lemma encode_codes_nonempty:
  "encode_codes io x xs = Inr (codes, max_code) \<Longrightarrow> codes \<noteq> []"
  by (auto simp: encode_codes_def emplace_code_def Let_def split: sum.splits)

section \<open>The bit depth chosen by encode\<close>

text \<open>
  Claim C2, as the code has it.  \<^verbatim>\<open>max_code\<close> starts at \<^verbatim>\<open>dict.size() - 1\<close>, the largest code
  of the base alphabet, so the bit depth \<open>log2_ceil (max_code + 1)\<close> is the least \<open>b \<ge> 1\<close>
  such that \<open>2 ^ b\<close> is at least the size of the input alphabet and exceeds every emitted
  code; it is not the least \<open>b\<close> with \<open>2 ^ b\<close> above the largest emitted code alone.
\<close>

theorem encode_bit_depth:
  assumes io: "ranges_ok io" "disjoint_pr io"
    and len: "length_pr io + length xs < 2 ^ 64"
    and enc: "encode_codes io x xs = Inr (codes, max_code)"
  shows "\<exists>b. log2_ceil (size_t_add max_code 1) = Some b \<and> 1 \<le> b \<and>
           length_pr io \<le> 2 ^ b \<and> (\<forall>c\<in>set codes. c < 2 ^ b) \<and>
           (\<forall>b'. 1 \<le> b' \<and> length_pr io \<le> 2 ^ b' \<and> (\<forall>c\<in>set codes. c < 2 ^ b') \<longrightarrow> b \<le> b')"
proof -
  let ?n = "length_pr io"
  let ?S = "insert (?n - 1) (set codes)"
  have n0: "0 < ?n" using io(1) by (rule length_pr_pos)
  have dist: "distinct (symbols io)" using io(2,1) by (rule distinct_symbols)
  from encode_codes_spec [OF dist n0 len enc]
  have m: "max_code = Max ?S" and cb: "\<forall>c\<in>set codes. c < ?n + length xs" by auto
  have fin: "finite ?S" "?S \<noteq> {}" by simp_all
  have mem: "max_code \<in> ?S" unfolding m using fin by (rule Max_in)
  have ge: "s \<le> max_code" if "s \<in> ?S" for s unfolding m using fin(1) that by (rule Max_ge)
  have "max_code < ?n + length xs" using mem cb n0 by auto
  with len have add: "size_t_add max_code 1 = max_code + 1" by (intro size_t_add_small) simp
  from log2_ceil_Some [of "max_code + 1"] obtain b where
    b: "log2_ceil (max_code + 1) = Some b" "1 \<le> b" "max_code + 1 \<le> 2 ^ b"
       "\<And>b'. 1 \<le> b' \<Longrightarrow> max_code + 1 \<le> 2 ^ b' \<Longrightarrow> b \<le> b'"
    by blast
  have 1: "?n \<le> 2 ^ b" using ge [of "?n - 1"] b(3) by simp
  have 2: "\<forall>c\<in>set codes. c < 2 ^ b"
  proof
    fix c assume "c \<in> set codes"
    then have "c \<le> max_code" by (intro ge) simp
    with b(3) show "c < 2 ^ b" by simp
  qed
  have 3: "b \<le> b'" if b': "1 \<le> b'" "?n \<le> 2 ^ b'" "\<forall>c\<in>set codes. c < 2 ^ b'" for b'
  proof -
    have "max_code + 1 \<le> 2 ^ b'"
    proof (cases "max_code = ?n - 1")
      case True
      with n0 b'(2) show ?thesis by simp
    next
      case False
      with mem have "max_code \<in> set codes" by simp
      with b'(3) have "max_code < 2 ^ b'" by blast
      then show ?thesis by simp
    qed
    with b'(1) show ?thesis by (rule b(4))
  qed
  show ?thesis using b(1,2) 1 2 3 unfolding add by blast
qed

section \<open>The capacity check at the end of encode\<close>

lemma encode_dict_fill_error:
  "encode_dict_fill io is d = Inl e \<Longrightarrow> e = out_of_range ''symbol_by_index: out of range''"
  by (induction "is" arbitrary: d) (auto split: sum.splits dest: symbol_by_index_error)

lemma emplace_code_error:
  "emplace_code d p mc cs = Inl e \<Longrightarrow> e = out_of_range ''map::at''"
  by (auto simp: emplace_code_def at_dict_def split: sum.splits option.splits)

lemma encode_loop_error:
  "encode_loop d nc mc cs p xs = Inl e \<Longrightarrow> e = out_of_range ''map::at''"
proof (induction xs arbitrary: d nc mc cs p)
  case Nil
  then show ?case by simp
next
  case (Cons c rest)
  obtain d' ins where emp: "emplace d (p @ [c]) nc = (d', ins)" by (cases "emplace d (p @ [c]) nc")
  show ?case
  proof (cases ins)
    case False
    with Cons.prems emp have "encode_loop d' nc mc cs (p @ [c]) rest = Inl e" by (simp add: Let_def)
    then show ?thesis by (rule Cons.IH)
  next
    case True
    show ?thesis
    proof (cases "emplace_code d' p mc cs")
      case (Inl e')
      with Cons.prems emp True have "e = e'" by (simp add: Let_def)
      with Inl show ?thesis by (simp add: emplace_code_error)
    next
      case (Inr q)
      obtain mc' cs' where q: "q = (mc', cs')" by (cases q) auto
      with Cons.prems emp True Inr
      have "encode_loop d' (size_t_add nc 1) mc' cs' [c] rest = Inl e" by (simp add: Let_def)
      then show ?thesis by (rule Cons.IH)
    qed
  qed
qed

lemma encode_codes_error:
  assumes "encode_codes io x xs = Inl e"
  shows "\<not> CapacityExceeded e"
proof -
  from assms have "e = out_of_range ''symbol_by_index: out of range'' \<or> e = out_of_range ''map::at''"
    by (auto simp: encode_codes_def encode_dict_def Let_def split: sum.splits
          dest: encode_dict_fill_error encode_loop_error emplace_code_error)
  then show ?thesis by auto
qed

text \<open>
  Claim C5, as the code has it.  \<^verbatim>\<open>encode\<close> fails with one of its two capacity exceptions
  exactly when the encode pass has ended with a bit depth above the native width or not below
  the size of the pack alphabet (the bit depth is then no index of a pack symbol); the
  comparison is with \<^verbatim>\<open>PackDict::length\<close>, not with \<open>2 ^ bit_depth\<close>.  The exception leaves
  before anything is written.
\<close>

theorem encode_capacity_exceeded:
  "((\<exists>e w. encode io pk input = Some (Inl (e, w)) \<and> CapacityExceeded e) \<longleftrightarrow>
    (\<exists>x xs codes max_code bit_depth. input = x # xs \<and>
       encode_codes io x xs = Inr (codes, max_code) \<and>
       log2_ceil (size_t_add max_code 1) = Some bit_depth \<and>
       (bit_depth > SIZE_T_BITS \<or> bit_depth \<ge> length_pr pk))) \<and>
   (\<forall>e w. encode io pk input = Some (Inl (e, w)) \<and> CapacityExceeded e \<longrightarrow> w = [])"
proof (cases input)
  case Nil
  then show ?thesis by (simp add: encode_def)
next
  case (Cons x xs)
  show ?thesis
  proof (cases "encode_codes io x xs")
    case (Inl e)
    then have "encode io pk input = Some (Inl (e, []))" by (simp add: encode_def Cons)
    moreover from Inl have "\<not> CapacityExceeded e" by (rule encode_codes_error)
    ultimately show ?thesis using Inl Cons by auto
  next
    case (Inr p)
    obtain codes max_code where p: "p = (codes, max_code)" by (cases p) auto
    from log2_ceil_Some [of "size_t_add max_code 1"] obtain bd where
      bd: "log2_ceil (size_t_add max_code 1) = Some bd" by blast
    note bd1 = bd [unfolded One_nat_def]
    show ?thesis
    proof (cases "bd > SIZE_T_BITS \<or> bd \<ge> length_pr pk")
      case True
      then have "\<exists>e. encode io pk input = Some (Inl (e, [])) \<and> CapacityExceeded e"
        by (auto simp: encode_def Cons Inr p bd1 CapacityExceeded_def)
      then show ?thesis using True Cons Inr p bd1 by auto
    next
      case False
      then have eq: "encode io pk input = pack_bits pk codes bd"
        by (auto simp: encode_def Cons Inr p bd1)
      have "\<not> CapacityExceeded e" if "encode io pk input = Some (Inl (e, w))" for e w
        using pack_bits_fact [OF that [unfolded eq]] by simp
      then show ?thesis using False Cons Inr p bd1 by auto
    qed
  qed
qed

section \<open>The dead bits of the header\<close>

text \<open>
  Claim C6, as the code has it.  The second header symbol of a non-empty encode is the
  symbol of \<open>dead_bits\<close>, the padding that completes the last payload symbol:
  \<open>dead_bits < bit_capacity\<close> and
  \<open>dead_bits = (bit_capacity - (codeCount * bit_depth) mod bit_capacity) mod bit_capacity\<close>.
\<close>

theorem encode_dead_bits:
  assumes codec: "lzw_codec io pk" and cap: "bit_capacity pk = Some cap"
    and enc: "encode_codes io x xs = Inr (codes, max_code)"
    and bd: "log2_ceil (size_t_add max_code 1) = Some bit_depth"
    and len: "length codes * bit_depth < 2 ^ 64"
    and y: "encode io pk (x # xs) = Some (Inr y)"
  shows "\<exists>d. symbol_by_index pk d = Inr (y ! 1) \<and> d < cap \<and>
           d = (cap - (length codes * bit_depth) mod cap) mod cap"
proof -
  from y enc bd [unfolded One_nat_def] have pb: "pack_bits pk codes bit_depth = Some (Inr y)"
    by (auto simp: encode_def split: if_splits)
  from pack_bits_fact [OF pb] cap obtain h1 h2 where
    h: "cap \<noteq> 0" "symbol_by_index pk (pack_dead_bits cap bit_depth (length codes)) = Inr h2"
       "take 2 y = [h1, h2]"
    by auto
  have "y ! 1 = take 2 y ! 1" by simp
  with h(3) have y1: "y ! 1 = h2" by simp
  from codec cap have c64: "cap \<le> 2 ^ 64" by (simp add: lzw_codec_def SIZE_T_BITS_def)
  from log2_ceil_Some [of "size_t_add max_code 1"] bd have "1 \<le> bit_depth" by auto
  moreover from enc have "codes \<noteq> []" by (rule encode_codes_nonempty)
  ultimately have pos: "0 < bit_depth * length codes" by simp
  from len have lt: "bit_depth * length codes < 2 ^ 64" by (simp add: mult.commute)
  from h(1) have c0: "0 < cap" by simp
  note d = pack_dead_bits_eq [OF c0 c64 pos lt]
  show ?thesis using h(2) y1 d by (auto simp: mult.commute)
qed

section \<open>Codes outside the decode dictionary\<close>

text \<open>
  Claim C3, as the code has it.  A code after the first that is no index of the decode
  dictionary is decoded as the self-referential case whatever its value: the loop emits the
  previous phrase followed by its first symbol and appends that phrase to the dictionary.
  The loop over the codes raises no exception at all: its only failure is the unchecked
  vector subscript.
\<close>

theorem decode_loop_unknown_code:
  "(old < length rdict \<and> rdict ! old = t0 # ts \<and> length rdict \<le> code \<longrightarrow>
      decode_loop rdict old (code # codes) out =
        decode_loop (rdict @ [t0 # ts @ [t0]]) code codes (out @ t0 # ts @ [t0])) \<and>
   (\<forall>e w. decode_loop rdict' old' codes' out' = Inl (e, w) \<longrightarrow>
      e = undefined_behaviour ''vector subscript'')"
proof
  show "old < length rdict \<and> rdict ! old = t0 # ts \<and> length rdict \<le> code \<longrightarrow>
      decode_loop rdict old (code # codes) out =
        decode_loop (rdict @ [t0 # ts @ [t0]]) code codes (out @ t0 # ts @ [t0])"
    by simp
  show "\<forall>e w. decode_loop rdict' old' codes' out' = Inl (e, w) \<longrightarrow>
      e = undefined_behaviour ''vector subscript''"
    by (induction rdict' old' codes' out' rule: decode_loop.induct)
       (auto simp: Let_def split: if_splits list.splits)
qed

lemmas size_t_defs = SIZE_T_BITS_def size_t_add_def size_t_sub_def size_t_mul_def size_t_shl_def

lemmas pack_eval = pack_bits_def pack_dead_bits_def bit_capacity_def log2_floor.simps
  pack_code.simps length_sr_def Let_def size_t_defs

lemmas unpack_eval = unpack_bits_def bit_capacity_def log2_floor.simps unpack_codes.simps
  unpack_code.simps length_sr_def Let_def size_t_defs

lemma emplace_code_at:
  assumes "distinct ps" "k < length ps" "ps ! k = p"
  shows "emplace_code (enum ps) p mc cs = Inr (max mc k, cs @ [k])"
proof -
  from assms have "at_dict (enum ps) p = Inr k" by (simp add: at_dict_enum)
  then show ?thesis by (simp add: emplace_code_def)
qed

lemma encode_codes_single:
  assumes "distinct (symbols io)" "k < length_pr io" "length_pr io < 2 ^ 64" "symbols io ! k = x"
  shows "encode_codes io x [] = Inr ([k], max (length_pr io - 1) k)"
proof -
  let ?base = "map (\<lambda>s. [s]) (symbols io)"
  have "distinct ?base" using assms(1) by (simp add: distinct_map inj_on_def)
  moreover have "k < length ?base" "?base ! k = [x]" using assms by simp_all
  ultimately have "emplace_code (enum ?base) [x] (length_pr io - 1) [] =
      Inr (max (length_pr io - 1) k, [] @ [k])"
    by (rule emplace_code_at)
  moreover have "size_t_sub (length_pr io) 1 = length_pr io - 1"
    using assms by (intro size_t_sub_small) simp_all
  ultimately show ?thesis
    by (simp add: encode_codes_def encode_dict_eq [OF assms(1)] Let_def del: One_nat_def)
qed

lemma ASCII_symbols: "symbols ASCII_128_common = map int [0..<128]"
  by (simp add: ASCII_128_common_def length_sr_def)

lemma ASCII_distinct: "distinct (symbols ASCII_128_common)"
  by (rule distinct_symbols) (simp_all add: ASCII_128_common_def)

lemma ASCII_length: "length_pr ASCII_128_common = 128"
  by (simp add: ASCII_128_common_def length_sr_def)

lemma ASCII_single:
  assumes "k < 128"
  shows "encode_codes ASCII_128_common (int k) [] = Inr ([k], 127)"
proof -
  have "encode_codes ASCII_128_common (int k) [] = Inr ([k], max (length_pr ASCII_128_common - 1) k)"
    using ASCII_distinct assms by (intro encode_codes_single) (simp_all add: ASCII_length ASCII_symbols)
  with assms show ?thesis by (simp add: ASCII_length max_def)
qed

lemma URI_length: "length_pr URI_pack = 62"
  by (simp add: URI_pack_def length_sr_def)

lemma log2_ceil_128: "log2_ceil (size_t_add 127 1) = Some 7"
  by (simp add: log2_ceil_def log2_floor.simps size_t_defs)

lemma encode_a_URI: "encode ASCII_128_common URI_pack [97] = Some (Inr [55, 51, 49, 51])"
proof -
  have "encode_codes ASCII_128_common (int 97) [] = Inr ([97], 127)" by (rule ASCII_single) simp
  then have 1: "encode_codes ASCII_128_common 97 [] = Inr ([97], 127)" by simp
  have 2: "pack_bits URI_pack [97] 7 = Some (Inr [55, 51, 49, 51])"
    by (simp add: pack_eval URI_pack_def)
  show ?thesis using log2_ceil_128 by (simp add: encode_def 1 2 URI_length SIZE_T_BITS_def del: One_nat_def)
qed

section \<open>Instances on the predefined codecs\<close>

text \<open>The bit depth of the one-symbol input \<^verbatim>\<open>"a"\<close> over the ASCII alphabet (claim C2).\<close>

theorem encode_bit_depth_witness:
  "ranges_ok ASCII_128_common \<and> disjoint_pr ASCII_128_common \<and>
   length_pr ASCII_128_common + length ([] :: int list) < 2 ^ 64 \<and>
   encode_codes ASCII_128_common 97 [] = Inr ([97], 127) \<and>
   (\<exists>b. log2_ceil (size_t_add 127 1) = Some b \<and> 1 \<le> b \<and>
      length_pr ASCII_128_common \<le> 2 ^ b \<and> (\<forall>c\<in>set [97::nat]. c < 2 ^ b) \<and>
      (\<forall>b'. 1 \<le> b' \<and> length_pr ASCII_128_common \<le> 2 ^ b' \<and> (\<forall>c\<in>set [97::nat]. c < 2 ^ b')
         \<longrightarrow> b \<le> b'))"
proof -
  have 1: "ranges_ok ASCII_128_common" by (simp add: ASCII_128_common_def)
  have 2: "disjoint_pr ASCII_128_common" by (simp add: ASCII_128_common_def)
  have 3: "length_pr ASCII_128_common + length ([] :: int list) < 2 ^ 64" by (simp add: ASCII_length)
  have "encode_codes ASCII_128_common (int 97) [] = Inr ([97], 127)" by (rule ASCII_single) simp
  then have 4: "encode_codes ASCII_128_common 97 [] = Inr ([97], 127)" by simp
  note 5 = encode_bit_depth [OF 1 2 3 4]
  show ?thesis by (intro conjI 1 2 3 4 5)
qed

text \<open>
  Claim C2 as stated fails: the input \<^verbatim>\<open>"\x01"\<close> over the ASCII alphabet emits the single
  code 1, for which one bit suffices, and encode chooses the bit depth 7.
\<close>

theorem bit_depth_not_minimal:
  "encode_codes ASCII_128_common 1 [] = Inr ([1], 127) \<and>
   log2_ceil (size_t_add 127 1) = Some 7 \<and>
   Max (set [1::nat]) < 2 ^ 1 \<and> (1::nat) < 7"
proof -
  have "encode_codes ASCII_128_common (int 1) [] = Inr ([1], 127)" by (rule ASCII_single) simp
  then show ?thesis using log2_ceil_128 by simp
qed

lemma URI_capacity: "bit_capacity URI_pack = Some 5"
  by (simp add: bit_capacity_def URI_length log2_floor.simps)

lemma encode_codes_a: "encode_codes ASCII_128_common 97 [] = Inr ([97], 127)"
proof -
  have "encode_codes ASCII_128_common (int 97) [] = Inr ([97], 127)" by (rule ASCII_single) simp
  then show ?thesis by simp
qed

text \<open>
  Claim C5 as stated fails: \<^verbatim>\<open>string_to_URI\<close> encodes \<^verbatim>\<open>"a"\<close> with bit depth 7 although
  \<open>2 ^ 7\<close> exceeds the 62 symbols of the pack alphabet.
\<close>

theorem encode_succeeds_beyond_alphabet:
  "encode ASCII_128_common URI_pack [97] = Some (Inr [55, 51, 49, 51]) \<and>
   encode_codes ASCII_128_common 97 [] = Inr ([97], 127) \<and>
   log2_ceil (size_t_add 127 1) = Some 7 \<and>
   length_pr URI_pack = 62 \<and> (62::nat) < 2 ^ 7"
  using encode_a_URI encode_codes_a log2_ceil_128 URI_length by simp

text \<open>
  Claim C6 as stated fails: \<^verbatim>\<open>string_to_URI\<close> encodes \<^verbatim>\<open>"a"\<close> as one code of 7 bits in
  symbols of 5 bits; the header holds \<open>dead_bits = 3\<close>, and \<open>(1 * 7) mod 5 = 2\<close>.
\<close>

theorem dead_bits_not_remainder:
  "encode ASCII_128_common URI_pack [97] = Some (Inr [55, 51, 49, 51]) \<and>
   encode_codes ASCII_128_common 97 [] = Inr ([97], 127) \<and>
   log2_ceil (size_t_add 127 1) = Some 7 \<and>
   bit_capacity URI_pack = Some 5 \<and>
   index_of_symbol URI_pack ([55, 51, 49, 51] ! 1) = Inr 3 \<and>
   (length [97::nat] * 7) mod 5 = 2"
  using encode_a_URI encode_codes_a log2_ceil_128 URI_capacity
  by (simp add: URI_pack_def length_sr_def)

lemma log2_ceil_128': "log2_ceil 128 = Some 7"
  by (simp add: log2_ceil_def log2_floor.simps)

lemma ASCII_URI_codec: "lzw_codec ASCII_128_common URI_pack"
proof -
  have "ranges_ok ASCII_128_common" by (simp add: ASCII_128_common_def)
  moreover have "ranges_ok URI_pack" by (simp add: URI_pack_def)
  ultimately show ?thesis
    by (simp add: lzw_codec_def URI_capacity ASCII_length URI_length log2_ceil_128' SIZE_T_BITS_def)
qed

text \<open>The dead bits of \<^verbatim>\<open>"a"\<close> encoded by \<^verbatim>\<open>string_to_URI\<close> (claim C6).\<close>

theorem encode_dead_bits_witness:
  "lzw_codec ASCII_128_common URI_pack \<and> bit_capacity URI_pack = Some 5 \<and>
   encode_codes ASCII_128_common 97 [] = Inr ([97], 127) \<and>
   log2_ceil (size_t_add 127 1) = Some 7 \<and> length [97::nat] * 7 < 2 ^ 64 \<and>
   encode ASCII_128_common URI_pack [97] = Some (Inr [55, 51, 49, 51]) \<and>
   (\<exists>d. symbol_by_index URI_pack d = Inr ([55, 51, 49, 51] ! 1) \<and> d < 5 \<and>
      d = (5 - (length [97::nat] * 7) mod 5) mod 5)"
proof -
  have 5: "length [97::nat] * 7 < 2 ^ 64" by simp
  note 6 = encode_dead_bits [OF ASCII_URI_codec URI_capacity encode_codes_a log2_ceil_128 5 encode_a_URI]
  show ?thesis
    by (intro conjI ASCII_URI_codec URI_capacity encode_codes_a log2_ceil_128 5 encode_a_URI 6)
qed

section \<open>Instances on small codecs\<close>

lemmas encode_eval = encode_def encode_codes_def encode_dict_def emplace_def emplace_code_def
  at_dict_def log2_ceil_def upt_rec

lemma tiny_codec: "lzw_codec (Single (symbol_range 97 98)) (Single (symbol_range 48 49))"
  by (simp add: lzw_codec_def bit_capacity_def log2_ceil_def log2_floor.simps length_sr_def
      SIZE_T_BITS_def)

lemma tiny_codes:
  "encode_codes (Single (symbol_range 97 98)) 97 [97, 97] = Inr ([0, 2], 2)"
  by (simp add: encode_eval length_sr_def Let_def size_t_defs)

lemma tiny_fails:
  "encode (Single (symbol_range 97 98)) (Single (symbol_range 48 49)) [97, 97, 97] =
     Some (Inl (logic_error ''lzw_codec: bit_depth > PackDict::length'', []))"
  by (simp add: encode_def tiny_codes log2_ceil_def log2_floor.simps length_sr_def size_t_defs)

text \<open>
  Claim C1 as stated fails: the codec from the alphabet \<^verbatim>\<open>['a','b']\<close> to the pack alphabet
  \<^verbatim>\<open>['0','1']\<close> passes the static assertions, and encoding \<^verbatim>\<open>"aaa"\<close> throws.
\<close>

theorem encode_can_fail:
  "lzw_codec (Single (symbol_range 97 98)) (Single (symbol_range 48 49)) \<and>
   symbols (Single (symbol_range 97 98)) = [97, 98] \<and>
   encode (Single (symbol_range 97 98)) (Single (symbol_range 48 49)) [97, 97, 97] =
     Some (Inl (logic_error ''lzw_codec: bit_depth > PackDict::length'', []))"
  using tiny_codec tiny_fails by (simp add: length_sr_def upt_rec)

text \<open>The capacity exception of that codec on \<^verbatim>\<open>"aaa"\<close> (claim C5).\<close>

theorem encode_capacity_exceeded_witness:
  "encode (Single (symbol_range 97 98)) (Single (symbol_range 48 49)) [97, 97, 97] =
     Some (Inl (logic_error ''lzw_codec: bit_depth > PackDict::length'', [])) \<and>
   CapacityExceeded (logic_error ''lzw_codec: bit_depth > PackDict::length'') \<and>
   (\<exists>x xs codes max_code bit_depth. [97, 97, 97] = x # xs \<and>
       encode_codes (Single (symbol_range 97 98)) x xs = Inr (codes, max_code) \<and>
       log2_ceil (size_t_add max_code 1) = Some bit_depth \<and>
       (bit_depth > SIZE_T_BITS \<or> bit_depth \<ge> length_pr (Single (symbol_range 48 49))))"
proof -
  have ce: "CapacityExceeded (logic_error ''lzw_codec: bit_depth > PackDict::length'')"
    by (simp add: CapacityExceeded_def)
  with tiny_fails have "\<exists>e w. encode (Single (symbol_range 97 98)) (Single (symbol_range 48 49))
      [97, 97, 97] = Some (Inl (e, w)) \<and> CapacityExceeded e"
    by blast
  with encode_capacity_exceeded
    [of "Single (symbol_range 97 98)" "Single (symbol_range 48 49)" "[97, 97, 97]"]
  have "\<exists>x xs codes max_code bit_depth. [97, 97, 97] = x # xs \<and>
       encode_codes (Single (symbol_range 97 98)) x xs = Inr (codes, max_code) \<and>
       log2_ceil (size_t_add max_code 1) = Some bit_depth \<and>
       (bit_depth > SIZE_T_BITS \<or> bit_depth \<ge> length_pr (Single (symbol_range 48 49)))"
    by (simp only:)
  with tiny_fails ce show ?thesis by (intro conjI)
qed

lemma ASCII_base_nth: "k < 128 \<Longrightarrow> map (\<lambda>s. [s]) (symbols ASCII_128_common) ! k = [int k]"
  by (simp add: ASCII_symbols)

lemma unpack_aaa: "unpack_bits ASCII_128_common [8, 5, 97, 4, 2] = Some (Inr [97, 130])"
  by (simp add: unpack_eval ASCII_128_common_def)

text \<open>
  Claim C3 as stated fails: the stream below unpacks to the codes 97 and 130; when 130 is
  read the decode dictionary has 128 entries, and \<^verbatim>\<open>decode\<close> returns \<^verbatim>\<open>"aaa"\<close>.
\<close>

theorem decode_accepts_unknown_code:
  "unpack_bits ASCII_128_common [8, 5, 97, 4, 2] = Some (Inr [97, 130]) \<and>
   decode_dict ASCII_128_common = Inr (map (\<lambda>s. [s]) (symbols ASCII_128_common)) \<and>
   length (map (\<lambda>s. [s]) (symbols ASCII_128_common)) + 2 = 130 \<and>
   decode ASCII_128_common ASCII_128_common [8, 5, 97, 4, 2] = Some (Inr [97, 97, 97])"
proof -
  have "decode ASCII_128_common ASCII_128_common [8, 5, 97, 4, 2] = Some (Inr [97, 97, 97])"
    using ASCII_base_nth [of 97]
    by (simp add: decode_def unpack_aaa decode_dict_eq ASCII_length)
  then show ?thesis by (simp add: unpack_aaa decode_dict_eq ASCII_length)
qed

text \<open>A code three above the dictionary size, and an out-of-range previous code (claim C3).\<close>

theorem decode_loop_unknown_code_witness:
  "((0::nat) < length [[1], [2::int]] \<and> [[1], [2::int]] ! 0 = 1 # [] \<and>
    length [[1], [2::int]] \<le> (5::nat) \<and>
    decode_loop [[1], [2]] 0 (5 # []) [1] =
      decode_loop ([[1], [2]] @ [1 # [] @ [1]]) 5 [] ([1] @ 1 # [] @ [1])) \<and>
   decode_loop [[1], [2]] 5 [0] [] = Inl (undefined_behaviour ''vector subscript'', [])"
  using decode_loop_unknown_code [of 0 "[[1], [2]]" 1 "[]" 5 "[]" "[1]" "[[1], [2]]" 5 "[0]" "[]"]
  by simp

end
